theory Spec2Isabelle
  imports
    Main
    "HOL-Library.Char_ord"
    "HOL-Library.List_Lexorder"
    "HOL-Library.Product_Lexorder"
begin

section \<open>Fieldmax offline synchronisation: the queue, the drain pass and the caches\<close>

text \<open>
  The repository holds two generations of the same subsystem.
  \<^item> \<^verbatim>\<open>static/js/offline-manager.js\<close>: the foreground \<^verbatim>\<open>OfflineManager\<close> on IndexedDB
    (object stores \<^verbatim>\<open>requests\<close> and \<^verbatim>\<open>failed\<close>, an index on \<^verbatim>\<open>priority\<close>). Its
    definitions carry no prefix.
  \<^item> \<^verbatim>\<open>static/js/service-worker.js\<close>: the background agent of cache generation
    \<^verbatim>\<open>fieldmax-shop-v4\<close>. Prefix \<open>sw\<close>.
  \<^item> the earlier service worker (cache names \<^verbatim>\<open>fieldmax-v1\<close>, \<^verbatim>\<open>fieldmax-api-v1\<close>) and the
    earlier \<^verbatim>\<open>OfflineManager\<close> that keeps its queue in an array saved to localStorage.
    Prefixes \<open>sw1\<close> and \<open>ls\<close>.

  Storage primitives (IndexedDB requests, localStorage writes, Cache API calls) are taken
  to succeed, except where the outcome is decided by the stored data: \<^verbatim>\<open>store.add\<close> on a
  key that is already present fails with a ConstraintError, and that is a branch of the
  model. The network is an input: each call's outcome is given by a function.
\<close>

subsection \<open>Queued operations\<close>

text \<open>
  The object built by \<^verbatim>\<open>queueRequest\<close>. The field \<^verbatim>\<open>timestamp\<close> is the ISO rendering of a
  time value; the model keeps the time value itself (milliseconds), whose order the
  rendering preserves. The record spread \<^verbatim>\<open>{...request, error, failedAt}\<close> of
  \<^verbatim>\<open>moveToFailed\<close> is the record extension.
\<close>

record request =
  req_id :: string
  req_method :: string
  url :: string
  data :: "string option"
  timestamp :: nat
  priority :: nat
  retries :: nat
  maxRetries :: nat

record failed_request = request +
  error :: string
  failedAt :: nat

datatype storage_error = ConstraintError

text \<open>
  Rendering of a number as a decimal string, as \<^verbatim>\<open>Date.now() + '-'\<close> does. \<open>digit_char\<close>
  is only applied to numbers below ten.
\<close>

definition digit_char :: "nat \<Rightarrow> char" where
  "digit_char d = ''0123456789'' ! d"

function decimal :: "nat \<Rightarrow> string" where
  "decimal n = (if n < 10 then [digit_char n] else decimal (n div 10) @ [digit_char (n mod 10)])"
  by pat_completeness auto
termination
  by (relation "measure (\<lambda>n. n)") auto

declare decimal.simps [simp del]

subsection \<open>The IndexedDB manager: priorities and enqueueing\<close>

text \<open>
  \<^verbatim>\<open>getPriorityValue\<close>: a lookup in the object literal, then \<^verbatim>\<open>|| 2\<close>. The operator
  \<^verbatim>\<open>||\<close> yields its right operand when the left one is falsy: \<^verbatim>\<open>undefined\<close> (a name that
  is not in the table) and also the number \<^verbatim>\<open>0\<close>. The argument is a string; the table is
  the object's own four properties (names inherited from \<^verbatim>\<open>Object.prototype\<close> are not
  priority classes and are left out).
\<close>

definition priorities :: "string \<rightharpoonup> nat" where
  "priorities = [''critical'' \<mapsto> 0, ''high'' \<mapsto> 1, ''normal'' \<mapsto> 2, ''low'' \<mapsto> 3]"

definition js_or_default :: "nat option \<Rightarrow> nat \<Rightarrow> nat" where
  "js_or_default v d = (case v of None \<Rightarrow> d | Some n \<Rightarrow> (if n = 0 then d else n))"

definition getPriorityValue :: "string \<Rightarrow> nat" where
  "getPriorityValue p = js_or_default (priorities p) 2"

text \<open>
  The database of the manager: the two object stores, each keyed by \<^verbatim>\<open>id\<close>. A store is
  the list of its records; the stores' own order is by key and is produced where records
  are listed.
\<close>

record db =
  requests :: "request list"
  failed :: "failed_request list"

definition ids :: "('a request_scheme) list \<Rightarrow> string list" where
  "ids rs = map req_id rs"

text \<open>\<^verbatim>\<open>addToQueue\<close>: \<^verbatim>\<open>store.add\<close> rejects a key that is present.\<close>

definition addToQueue :: "request \<Rightarrow> db \<Rightarrow> storage_error + db" where
  "addToQueue r d =
     (if req_id r \<in> set (ids (requests d)) then Inl ConstraintError
      else Inr (d\<lparr>requests := requests d @ [r]\<rparr>))"

definition getQueueSize :: "db \<Rightarrow> nat" where
  "getQueueSize d = length (requests d)"

text \<open>
  The environment of one call of \<^verbatim>\<open>queueRequest\<close>: the value of \<^verbatim>\<open>Date.now()\<close>, the
  string \<^verbatim>\<open>Math.random().toString(36).substr(2, 9)\<close>, and the time value of the later
  \<^verbatim>\<open>new Date()\<close>.
\<close>

record enq_env =
  date_now :: nat
  random_suffix :: string
  new_date :: nat

definition new_request :: "enq_env \<Rightarrow> string \<Rightarrow> string \<Rightarrow> string option \<Rightarrow> string \<Rightarrow> request" where
  "new_request e m u dat p =
     \<lparr> req_id = decimal (date_now e) @ ''-'' @ random_suffix e,
       req_method = m, url = u, data = dat,
       timestamp = new_date e,
       priority = getPriorityValue p,
       retries = 0, maxRetries = 3 \<rparr>"

text \<open>
  \<^verbatim>\<open>queueRequest\<close> returns the id; the model returns the database as well. A rejected
  \<^verbatim>\<open>addToQueue\<close> is thrown to the caller. The counter update, the notification and the
  background-sync registration do not touch the stores.
\<close>

definition queueRequest ::
  "enq_env \<Rightarrow> string \<Rightarrow> string \<Rightarrow> string option \<Rightarrow> string \<Rightarrow> db \<Rightarrow> storage_error + (string \<times> db)" where
  "queueRequest e m u dat p d =
     (let request = new_request e m u dat p in
      case addToQueue request d of
        Inl err \<Rightarrow> Inl err
      | Inr d' \<Rightarrow> Inr (req_id request, d'))"

subsection \<open>The IndexedDB manager: the stores\<close>

text \<open>
  \<^verbatim>\<open>getQueuedRequests(limit = 50)\<close> walks a cursor over the index \<^verbatim>\<open>priority\<close>. An index
  cursor visits the records in ascending order of the index key and, among records with
  equal index key, in ascending order of the primary key (here the string \<^verbatim>\<open>id\<close>; strings
  compare by code unit, a proper prefix first). The walk stops when the cursor is exhausted
  or \<^verbatim>\<open>limit\<close> records have been collected.
\<close>

definition index_key :: "request \<Rightarrow> nat \<times> string" where
  "index_key r = (priority r, req_id r)"

definition priority_cursor :: "db \<Rightarrow> request list" where
  "priority_cursor d = sort_key index_key (requests d)"

fun cursor_collect :: "nat \<Rightarrow> request list \<Rightarrow> request list \<Rightarrow> request list" where
  "cursor_collect limit [] acc = acc"
| "cursor_collect limit (c # cs) acc =
     (if length acc < limit then cursor_collect limit cs (acc @ [c]) else acc)"

definition default_limit :: nat where
  "default_limit = 50"

definition getQueuedRequests :: "nat \<Rightarrow> db \<Rightarrow> request list" where
  "getQueuedRequests limit d = cursor_collect limit (priority_cursor d) []"

definition removeFromQueue :: "string \<Rightarrow> db \<Rightarrow> db" where
  "removeFromQueue i d = d\<lparr>requests := filter (\<lambda>r. req_id r \<noteq> i) (requests d)\<rparr>"

text \<open>\<^verbatim>\<open>moveToFailed\<close>: \<^verbatim>\<open>store.add\<close> of the request extended by the error and the time.\<close>

definition failed_record :: "request \<Rightarrow> string \<Rightarrow> nat \<Rightarrow> failed_request" where
  "failed_record r msg t =
     \<lparr> req_id = req_id r, req_method = req_method r, url = url r, data = data r,
       timestamp = timestamp r, priority = priority r, retries = retries r,
       maxRetries = maxRetries r, error = msg, failedAt = t \<rparr>"

definition moveToFailed :: "request \<Rightarrow> string \<Rightarrow> nat \<Rightarrow> db \<Rightarrow> storage_error + db" where
  "moveToFailed r msg t d =
     (if req_id r \<in> set (ids (failed d)) then Inl ConstraintError
      else Inr (d\<lparr>failed := failed d @ [failed_record r msg t]\<rparr>))"

text \<open>
  Modelled from the spec: \<^verbatim>\<open>updateRequest\<close> is called by \<^verbatim>\<open>syncOfflineData\<close> and is defined
  nowhere in the repository. The spec's Queue Store contract has \<^verbatim>\<open>update(operation)\<close>,
  "attempts/priority mutation in place": the record stored under the operation's id is
  replaced by the given one (a \<^verbatim>\<open>store.put\<close>, which inserts when the key is absent).
\<close>

definition updateRequest :: "request \<Rightarrow> db \<Rightarrow> db" where
  "updateRequest r d =
     (if req_id r \<in> set (ids (requests d))
      then d\<lparr>requests := map (\<lambda>x. if req_id x = req_id r then r else x) (requests d)\<rparr>
      else d\<lparr>requests := requests d @ [r]\<rparr>)"

subsection \<open>The IndexedDB manager: the drain pass\<close>

text \<open>
  \<^verbatim>\<open>processQueuedRequest\<close> is the network call: it returns, or throws an error with a
  message. The outcome of the call for each request is an input of the pass.
\<close>

datatype net_result = NetOk | NetError string

datatype sync_event = RequestSynced request | RequestFailed request string

record pass =
  store :: db
  successCount :: nat
  failCount :: nat
  events :: "sync_event list"
  sent :: "request list"

definition init_pass :: "db \<Rightarrow> pass" where
  "init_pass d = \<lparr>store = d, successCount = 0, failCount = 0, events = [], sent = []\<rparr>"

text \<open>
  The \<^verbatim>\<open>catch\<close> block of one entry: \<^verbatim>\<open>request.retries++\<close> on the object read by the
  cursor, then either \<^verbatim>\<open>moveToFailed\<close> followed by \<^verbatim>\<open>removeFromQueue\<close>, or
  \<^verbatim>\<open>updateRequest\<close>. The argument \<open>t\<close> is the time read by \<^verbatim>\<open>moveToFailed\<close>. A rejection
  inside the block leaves it, and the loop, for the outer \<^verbatim>\<open>catch\<close>.
\<close>

definition on_failure :: "request \<Rightarrow> string \<Rightarrow> nat \<Rightarrow> db \<Rightarrow> storage_error + db" where
  "on_failure r msg t d =
     (let request = r\<lparr>retries := retries r + 1\<rparr> in
      if maxRetries request \<le> retries request then
        (case moveToFailed request msg t d of
           Inl e \<Rightarrow> Inl e
         | Inr d1 \<Rightarrow> Inr (removeFromQueue (req_id request) d1))
      else Inr (updateRequest request d))"

fun sync_loop ::
  "(request \<Rightarrow> net_result) \<Rightarrow> (request \<Rightarrow> nat) \<Rightarrow> request list \<Rightarrow> pass \<Rightarrow> storage_error option \<times> pass" where
  "sync_loop net clock [] p = (None, p)"
| "sync_loop net clock (r # rs) p =
     (let p1 = p\<lparr>sent := sent p @ [r]\<rparr> in
      case net r of
        NetOk \<Rightarrow>
          sync_loop net clock rs
            (p1\<lparr>store := removeFromQueue (req_id r) (store p1),
                successCount := successCount p1 + 1,
                events := events p1 @ [RequestSynced r]\<rparr>)
      | NetError msg \<Rightarrow>
          (case on_failure r msg (clock r) (store p1) of
             Inl e \<Rightarrow> (Some e, p1)
           | Inr d \<Rightarrow>
               sync_loop net clock rs
                 (p1\<lparr>store := d,
                     failCount := failCount p1 + 1,
                     events := events p1 @ [RequestFailed (r\<lparr>retries := retries r + 1\<rparr>) msg]\<rparr>)))"

text \<open>The body of the \<^verbatim>\<open>try\<close>: the snapshot, then the loop over it.\<close>

definition drain_pass ::
  "(request \<Rightarrow> net_result) \<Rightarrow> (request \<Rightarrow> nat) \<Rightarrow> db \<Rightarrow> storage_error option \<times> pass" where
  "drain_pass net clock d = sync_loop net clock (getQueuedRequests default_limit d) (init_pass d)"

text \<open>
  The manager object. \<^verbatim>\<open>syncOfflineData\<close> runs without suspension from its guard to the
  assignment \<^verbatim>\<open>syncInProgress = true\<close> (\<open>sync_enter\<close>); the \<^verbatim>\<open>finally\<close> block resets the
  flag (\<open>sync_finally\<close>). Between the two the pass is suspended at every \<^verbatim>\<open>await\<close>.
\<close>

record manager =
  isOnline :: bool
  syncInProgress :: bool
  database :: db
  notifications :: "(string \<times> string) list"

definition showNotification :: "string \<Rightarrow> string \<Rightarrow> manager \<Rightarrow> manager" where
  "showNotification msg kind m = m\<lparr>notifications := notifications m @ [(msg, kind)]\<rparr>"

definition sync_enter :: "manager \<Rightarrow> manager option" where
  "sync_enter m =
     (if syncInProgress m \<or> \<not> isOnline m then None
      else Some (showNotification ''Syncing offline data...'' ''info'' (m\<lparr>syncInProgress := True\<rparr>)))"

definition item_word :: "nat \<Rightarrow> string" where
  "item_word n = (if n = 1 then ''item'' else ''items'')"

definition show_summary :: "pass \<Rightarrow> manager \<Rightarrow> manager" where
  "show_summary p m =
     (let m1 = (if 0 < successCount p
                then showNotification (''Synced '' @ decimal (successCount p) @ '' '' @ item_word (successCount p)) ''success'' m
                else m)
      in if 0 < failCount p
         then showNotification (decimal (failCount p) @ '' '' @ item_word (failCount p) @ '' failed to sync'') ''warning'' m1
         else m1)"

definition sync_body :: "(request \<Rightarrow> net_result) \<Rightarrow> (request \<Rightarrow> nat) \<Rightarrow> manager \<Rightarrow> manager \<times> pass" where
  "sync_body net clock m =
     (case drain_pass net clock (database m) of
        (None, p) \<Rightarrow> (show_summary p (m\<lparr>database := store p\<rparr>), p)
      | (Some e, p) \<Rightarrow> (showNotification ''Sync failed. Will retry later.'' ''error'' (m\<lparr>database := store p\<rparr>), p))"

definition sync_finally :: "manager \<Rightarrow> manager" where
  "sync_finally m = m\<lparr>syncInProgress := False\<rparr>"

definition syncOfflineData ::
  "(request \<Rightarrow> net_result) \<Rightarrow> (request \<Rightarrow> nat) \<Rightarrow> manager \<Rightarrow> manager \<times> pass option" where
  "syncOfflineData net clock m =
     (case sync_enter m of
        None \<Rightarrow> (m, None)
      | Some m1 \<Rightarrow> (case sync_body net clock m1 of (m2, p) \<Rightarrow> (sync_finally m2, Some p)))"

text \<open>
  The databases the manager can produce: it starts with empty stores, and the stores change
  by \<^verbatim>\<open>queueRequest\<close> and by the drain pass only.
\<close>

definition empty_db :: db where
  "empty_db = \<lparr>requests = [], failed = []\<rparr>"

inductive reachable :: "db \<Rightarrow> bool" where
  initial: "reachable empty_db"
| enqueued: "reachable d \<Longrightarrow> queueRequest e m u dat pr d = Inr (i, d') \<Longrightarrow> reachable d'"
| drained: "reachable d \<Longrightarrow> drain_pass net clock d = (err, p) \<Longrightarrow> reachable (store p)"

subsection \<open>The service worker of generation v4: background sync\<close>

text \<open>
  The worker has a database of its own with one object store keyed by \<^verbatim>\<open>id\<close> and no index.
  \<^verbatim>\<open>getQueuedRequests\<close> is \<^verbatim>\<open>store.getAll()\<close>: all records in ascending order of the key.
  Opening the database can fail; the failure reaches the outer \<^verbatim>\<open>catch\<close> of
  \<^verbatim>\<open>syncOfflineData\<close>.
\<close>

datatype sw_db = DbUnavailable | Db "request list"

definition sw_getQueuedRequests :: "request list \<Rightarrow> request list" where
  "sw_getQueuedRequests q = sort_key req_id q"

definition sw_removeFromQueue :: "string \<Rightarrow> request list \<Rightarrow> request list" where
  "sw_removeFromQueue i q = filter (\<lambda>r. req_id r \<noteq> i) q"

record sw_pass =
  sw_queue :: "request list"
  sw_sent :: "request list"

text \<open>The inner \<^verbatim>\<open>catch\<close> only logs: a request whose call fails stays as it is.\<close>

fun sw_sync_loop :: "(request \<Rightarrow> net_result) \<Rightarrow> request list \<Rightarrow> sw_pass \<Rightarrow> sw_pass" where
  "sw_sync_loop net [] p = p"
| "sw_sync_loop net (r # rs) p =
     (let p1 = p\<lparr>sw_sent := sw_sent p @ [r]\<rparr> in
      case net r of
        NetOk \<Rightarrow> sw_sync_loop net rs (p1\<lparr>sw_queue := sw_removeFromQueue (req_id r) (sw_queue p1)\<rparr>)
      | NetError msg \<Rightarrow> sw_sync_loop net rs p1)"

text \<open>The result: the database, the message types posted to the clients, the calls made.\<close>

definition sw_syncOfflineData ::
  "(request \<Rightarrow> net_result) \<Rightarrow> sw_db \<Rightarrow> sw_db \<times> string list \<times> request list" where
  "sw_syncOfflineData net d =
     (case d of
        DbUnavailable \<Rightarrow> (DbUnavailable, [''SYNC_STARTED'', ''SYNC_FAILED''], [])
      | Db q \<Rightarrow>
          (let p = sw_sync_loop net (sw_getQueuedRequests q) \<lparr>sw_queue = q, sw_sent = []\<rparr>
           in (Db (sw_queue p), [''SYNC_STARTED'', ''SYNC_COMPLETED''], sw_sent p)))"

subsection \<open>The localStorage manager\<close>

text \<open>
  The earlier \<^verbatim>\<open>OfflineManager\<close>: the queue is the array \<^verbatim>\<open>offlineQueue\<close>, saved as JSON
  under the localStorage key \<^verbatim>\<open>offlineQueue\<close> (\<open>ls_saved\<close> is the saved array). Its
  requests have neither priority nor \<^verbatim>\<open>maxRetries\<close>, and there is no failed store.
\<close>

record ls_request =
  ls_id :: string
  ls_method :: string
  ls_url :: string
  ls_data :: "string option"
  ls_timestamp :: nat
  ls_retries :: nat

record ls_manager =
  ls_isOnline :: bool
  ls_offlineQueue :: "ls_request list"
  ls_syncInProgress :: bool
  ls_saved :: "ls_request list"
  ls_notifications :: "(string \<times> string) list"

definition ls_saveQueue :: "ls_manager \<Rightarrow> ls_manager" where
  "ls_saveQueue m = m\<lparr>ls_saved := ls_offlineQueue m\<rparr>"

definition ls_showNotification :: "string \<Rightarrow> string \<Rightarrow> ls_manager \<Rightarrow> ls_manager" where
  "ls_showNotification msg kind m = m\<lparr>ls_notifications := ls_notifications m @ [(msg, kind)]\<rparr>"

definition ls_queueRequest ::
  "enq_env \<Rightarrow> string \<Rightarrow> string \<Rightarrow> string option \<Rightarrow> ls_manager \<Rightarrow> string \<times> ls_manager" where
  "ls_queueRequest e m u dat mgr =
     (let request = \<lparr> ls_id = decimal (date_now e) @ ''-'' @ random_suffix e,
                      ls_method = m, ls_url = u, ls_data = dat,
                      ls_timestamp = new_date e, ls_retries = 0 \<rparr>;
          mgr1 = ls_saveQueue (mgr\<lparr>ls_offlineQueue := ls_offlineQueue mgr @ [request]\<rparr>)
      in (ls_id request,
          ls_showNotification ''Action saved. Will sync when online.'' ''info'' mgr1))"

record ls_results =
  ls_success :: nat
  ls_failed :: nat
  ls_total :: nat

text \<open>
  The loop over \<^verbatim>\<open>queueCopy\<close>; \<open>q\<close> is \<^verbatim>\<open>this.offlineQueue\<close>, emptied before the loop. The
  third component lists the calls made.
\<close>

fun ls_sync_loop ::
  "(ls_request \<Rightarrow> net_result) \<Rightarrow> ls_request list \<Rightarrow> ls_request list \<times> ls_results \<times> ls_request list
     \<Rightarrow> ls_request list \<times> ls_results \<times> ls_request list" where
  "ls_sync_loop net [] acc = acc"
| "ls_sync_loop net (r # rs) (q, res, calls) =
     (case net r of
        NetOk \<Rightarrow> ls_sync_loop net rs (q, res\<lparr>ls_success := ls_success res + 1\<rparr>, calls @ [r])
      | NetError msg \<Rightarrow>
          (let request = r\<lparr>ls_retries := ls_retries r + 1\<rparr> in
           ls_sync_loop net rs
             ((if ls_retries request < 3 then q @ [request] else q),
              res\<lparr>ls_failed := ls_failed res + 1\<rparr>, calls @ [r])))"

definition ls_show_results :: "ls_results \<Rightarrow> ls_manager \<Rightarrow> ls_manager" where
  "ls_show_results res m =
     (if ls_failed res = 0
      then ls_showNotification
             (''Successfully synced '' @ decimal (ls_success res) @ '' '' @ item_word (ls_success res))
             ''success'' m
      else ls_showNotification
             (''Synced '' @ decimal (ls_success res) @ ''/'' @ decimal (ls_total res) @ '' items. ''
                @ decimal (ls_failed res) @ '' failed.'')
             ''warning'' m)"

text \<open>The result: the manager and the calls made.\<close>

definition ls_syncOfflineData ::
  "(ls_request \<Rightarrow> net_result) \<Rightarrow> ls_manager \<Rightarrow> ls_manager \<times> ls_request list" where
  "ls_syncOfflineData net m =
     (if ls_syncInProgress m \<or> \<not> ls_isOnline m then (m, [])
      else if length (ls_offlineQueue m) = 0 then (m, [])
      else
        (let m1 = ls_showNotification ''Syncing offline data...'' ''info'' (m\<lparr>ls_syncInProgress := True\<rparr>);
             queueCopy = ls_offlineQueue m1;
             m2 = m1\<lparr>ls_offlineQueue := []\<rparr>
         in case ls_sync_loop net queueCopy
                   ([], \<lparr>ls_success = 0, ls_failed = 0, ls_total = length queueCopy\<rparr>, []) of
              (q, res, calls) \<Rightarrow>
                (ls_show_results res
                   ((ls_saveQueue (m2\<lparr>ls_offlineQueue := q\<rparr>))\<lparr>ls_syncInProgress := False\<rparr>),
                 calls)))"

text \<open>\<^verbatim>\<open>handleServiceWorkerMessage\<close>: a \<^verbatim>\<open>switch\<close> on the message type, without default.\<close>

definition ls_handleServiceWorkerMessage :: "string \<Rightarrow> ls_manager \<Rightarrow> ls_manager" where
  "ls_handleServiceWorkerMessage ty m =
     (if ty = ''SYNC_STARTED'' then m
      else if ty = ''SYNC_COMPLETED'' then
        ls_saveQueue
          ((ls_showNotification ''Offline data synced successfully'' ''success'' m)\<lparr>ls_offlineQueue := []\<rparr>)
      else if ty = ''SYNC_FAILED'' then
        ls_showNotification ''Sync failed. Will retry later.'' ''error'' m
      else m)"

subsection \<open>Cache storage\<close>

text \<open>
  A response is its status, its headers and its body; the body built by the worker itself
  is a JSON object. \<open>JTime t\<close> stands for the ISO rendering of the time value \<open>t\<close>.
  A cache maps request URLs to responses; \<^verbatim>\<open>cache.put\<close> replaces the entry of the URL.
  Only GET requests are stored and matched. Cache storage is the list of named caches in
  creation order, which is the order \<^verbatim>\<open>caches.match\<close> searches them in.
\<close>

datatype json = JString string | JTime nat

datatype body = Raw string | JsonObject "(string \<times> json) list"

record response =
  status :: nat
  headers :: "(string \<times> string) list"
  body :: body

definition ok :: "response \<Rightarrow> bool" where
  "ok r = (200 \<le> status r \<and> status r \<le> 299)"

record fetch_request =
  pathname :: string
  fetch_method :: string
  mode :: string

definition get_request :: "string \<Rightarrow> fetch_request" where
  "get_request u = \<lparr>pathname = u, fetch_method = ''GET'', mode = ''cors''\<rparr>"

type_synonym cache = "(string \<times> response) list"

type_synonym cache_storage = "(string \<times> cache) list"

definition cache_match :: "fetch_request \<Rightarrow> cache \<Rightarrow> response option" where
  "cache_match r c = (if fetch_method r = ''GET'' then map_of c (pathname r) else None)"

definition cache_put :: "string \<Rightarrow> response \<Rightarrow> cache \<Rightarrow> cache" where
  "cache_put u v c = filter (\<lambda>e. fst e \<noteq> u) c @ [(u, v)]"

definition caches_keys :: "cache_storage \<Rightarrow> string list" where
  "caches_keys cs = map fst cs"

definition caches_open :: "string \<Rightarrow> cache_storage \<Rightarrow> cache_storage" where
  "caches_open name cs = (if name \<in> set (caches_keys cs) then cs else cs @ [(name, [])])"

definition caches_delete :: "string \<Rightarrow> cache_storage \<Rightarrow> cache_storage" where
  "caches_delete name cs = filter (\<lambda>e. fst e \<noteq> name) cs"

fun caches_match :: "fetch_request \<Rightarrow> cache_storage \<Rightarrow> response option" where
  "caches_match r [] = None"
| "caches_match r (e # cs) =
     (case cache_match r (snd e) of Some x \<Rightarrow> Some x | None \<Rightarrow> caches_match r cs)"

text \<open>\<^verbatim>\<open>caches.open(name).then(cache => cache.put(request, response))\<close>.\<close>

definition put_in :: "string \<Rightarrow> fetch_request \<Rightarrow> response \<Rightarrow> cache_storage \<Rightarrow> cache_storage" where
  "put_in name r v cs =
     (if fetch_method r = ''GET''
      then map (\<lambda>e. if fst e = name then (fst e, cache_put (pathname r) v (snd e)) else e)
             (caches_open name cs)
      else caches_open name cs)"

definition stored :: "string \<Rightarrow> string \<Rightarrow> cache_storage \<Rightarrow> response option" where
  "stored name u cs = (case map_of cs name of None \<Rightarrow> None | Some c \<Rightarrow> map_of c u)"

subsection \<open>The service worker of generation v4: caches\<close>

definition CACHE_NAME :: string where
  "CACHE_NAME = ''fieldmax-shop-v4''"

definition OFFLINE_URL :: string where
  "OFFLINE_URL = ''/offline/''"

definition STATIC_ASSETS :: "string list" where
  "STATIC_ASSETS =
     [''/'', ''/static/css/style.css'', ''/static/js/offline-manager.js'', ''/static/js/app.js'',
      ''/static/images/LOGO.jpg'', OFFLINE_URL, ''/api/offline-data/'', ''/manifest.json'']"

text \<open>
  \<^verbatim>\<open>cache.addAll\<close> fetches every URL and stores the responses only if every fetch gave a
  response with an ok status; otherwise it rejects and stores nothing. The network is the
  function \<open>fetch\<close>: \<open>None\<close> is a rejected fetch.
\<close>

fun fetch_all :: "(fetch_request \<Rightarrow> response option) \<Rightarrow> string list \<Rightarrow> (string \<times> response) list option" where
  "fetch_all fetch [] = Some []"
| "fetch_all fetch (u # us) =
     (case fetch (get_request u) of
        None \<Rightarrow> None
      | Some r \<Rightarrow>
          (if ok r
           then (case fetch_all fetch us of None \<Rightarrow> None | Some rest \<Rightarrow> Some ((u, r) # rest))
           else None))"

definition cache_addAll ::
  "(fetch_request \<Rightarrow> response option) \<Rightarrow> string list \<Rightarrow> string \<Rightarrow> cache_storage \<Rightarrow> cache_storage option" where
  "cache_addAll fetch urls name cs =
     (case fetch_all fetch urls of
        None \<Rightarrow> None
      | Some entries \<Rightarrow> Some (foldl (\<lambda>s e. put_in name (get_request (fst e)) (snd e) s) cs entries))"

text \<open>
  The \<^verbatim>\<open>install\<close> handler. The boolean tells whether the promise given to
  \<^verbatim>\<open>waitUntil\<close> was fulfilled; a worker whose installation failed is never activated.
\<close>

definition sw_install :: "(fetch_request \<Rightarrow> response option) \<Rightarrow> cache_storage \<Rightarrow> bool \<times> cache_storage" where
  "sw_install fetch cs =
     (let cs1 = caches_open CACHE_NAME cs in
      case cache_addAll fetch STATIC_ASSETS CACHE_NAME cs1 of
        None \<Rightarrow> (False, cs1)
      | Some cs2 \<Rightarrow> (True, cs2))"

text \<open>The \<^verbatim>\<open>activate\<close> handler: every cache name other than \<^verbatim>\<open>CACHE_NAME\<close> is deleted.\<close>

definition sw_activate :: "cache_storage \<Rightarrow> cache_storage" where
  "sw_activate cs =
     foldl (\<lambda>s cacheName. if cacheName \<noteq> CACHE_NAME then caches_delete cacheName s else s)
       cs (caches_keys cs)"

text \<open>
  The \<^verbatim>\<open>fetch\<close> handler. The result \<open>None\<close> is a \<^verbatim>\<open>respondWith\<close> promise that settles
  without a response (\<^verbatim>\<open>undefined\<close> from \<^verbatim>\<open>caches.match\<close>, or a rejected fetch).
\<close>

definition is_api :: "fetch_request \<Rightarrow> bool" where
  "is_api r = (take 5 (pathname r) = ''/api/'')"

definition sw_fetch ::
  "(fetch_request \<Rightarrow> response option) \<Rightarrow> fetch_request \<Rightarrow> cache_storage \<Rightarrow> response option \<times> cache_storage" where
  "sw_fetch fetch r cs =
     (if is_api r then
        (case fetch r of
           Some resp \<Rightarrow> (Some resp, if ok resp then put_in CACHE_NAME r resp cs else cs)
         | None \<Rightarrow> (caches_match r cs, cs))
      else if mode r = ''navigate'' then
        (case fetch r of
           Some resp \<Rightarrow> (Some resp, cs)
         | None \<Rightarrow> (caches_match (get_request OFFLINE_URL) cs, cs))
      else
        (case caches_match r cs of
           Some cachedResponse \<Rightarrow>
             (Some cachedResponse,
              case fetch r of
                Some resp \<Rightarrow> (if ok resp then put_in CACHE_NAME r resp cs else cs)
              | None \<Rightarrow> cs)
         | None \<Rightarrow> (fetch r, cs)))"

subsection \<open>The foreground manager's page cache\<close>

text \<open>\<^verbatim>\<open>cacheCriticalPages\<close> of the IndexedDB manager: a failed fetch is logged and skipped.\<close>

definition critical_pages :: "string list" where
  "critical_pages = [''/'', ''/shop/'', ''/categories/'']"

fun cache_pages :: "(fetch_request \<Rightarrow> response option) \<Rightarrow> string list \<Rightarrow> cache_storage \<Rightarrow> cache_storage" where
  "cache_pages fetch [] cs = cs"
| "cache_pages fetch (page # pages) cs =
     cache_pages fetch pages
       (case fetch (get_request page) of
          Some resp \<Rightarrow> (if ok resp then put_in ''fieldmax-pages'' (get_request page) resp cs else cs)
        | None \<Rightarrow> cs)"

definition cacheCriticalPages :: "(fetch_request \<Rightarrow> response option) \<Rightarrow> cache_storage \<Rightarrow> cache_storage" where
  "cacheCriticalPages fetch cs = cache_pages fetch critical_pages cs"

subsection \<open>The earlier service worker: API requests\<close>

definition API_CACHE :: string where
  "API_CACHE = ''fieldmax-api-v1''"

definition offline_response :: "nat \<Rightarrow> response" where
  "offline_response now =
     \<lparr> status = 503,
       headers = [(''Content-Type'', ''application/json'')],
       body = JsonObject
                [(''error'', JString ''offline''),
                 (''message'', JString ''You are currently offline. This request will be synced when connection is restored.''),
                 (''timestamp'', JTime now)] \<rparr>"

text \<open>\<^verbatim>\<open>handleAPIRequest\<close>; \<open>now\<close> is the time read when the offline response is built.\<close>

definition sw1_handleAPIRequest ::
  "(fetch_request \<Rightarrow> response option) \<Rightarrow> nat \<Rightarrow> fetch_request \<Rightarrow> cache_storage \<Rightarrow> response \<times> cache_storage" where
  "sw1_handleAPIRequest fetch now r cs =
     (case fetch r of
        Some resp \<Rightarrow> (resp, if ok resp then put_in API_CACHE r resp cs else cs)
      | None \<Rightarrow>
          (case caches_match r cs of
             Some cachedResponse \<Rightarrow> (cachedResponse, cs)
           | None \<Rightarrow> (offline_response now, cs)))"

subsection \<open>Triggers and passes in one execution context\<close>

text \<open>
  One page runs its handlers one at a time; a handler runs until it returns or reaches an
  \<^verbatim>\<open>await\<close>. What happens in the context of the IndexedDB manager is therefore a sequence
  of events: a trigger (a call of \<^verbatim>\<open>syncOfflineData\<close>, which runs \<open>sync_enter\<close> at once), the
  completion of the running pass (its body, then \<open>sync_finally\<close>), and changes of the
  connectivity flag. The counters \<open>running\<close> and \<open>completed\<close> observe the passes; the code
  does not read them.
\<close>

datatype ctx_event =
    Trigger
  | Finish "request \<Rightarrow> net_result" "request \<Rightarrow> nat"
  | GoOnline
  | GoOffline

record page_context =
  mgr :: manager
  running :: nat
  completed :: nat

fun step :: "ctx_event \<Rightarrow> page_context \<Rightarrow> page_context" where
  "step Trigger c =
     (case sync_enter (mgr c) of
        None \<Rightarrow> c
      | Some m1 \<Rightarrow> c\<lparr>mgr := m1, running := running c + 1\<rparr>)"
| "step (Finish net clock) c =
     (if running c = 0 then c
      else c\<lparr>mgr := sync_finally (fst (sync_body net clock (mgr c))),
             running := running c - 1, completed := completed c + 1\<rparr>)"
| "step GoOnline c = c\<lparr>mgr := (mgr c)\<lparr>isOnline := True\<rparr>\<rparr>"
| "step GoOffline c = c\<lparr>mgr := (mgr c)\<lparr>isOnline := False\<rparr>\<rparr>"

fun run :: "ctx_event list \<Rightarrow> page_context \<Rightarrow> page_context" where
  "run [] c = c"
| "run (e # es) c = run es (step e c)"

text \<open>The number of passes started, and of returns of the flag to idle, along a run.\<close>

fun passes_started :: "ctx_event list \<Rightarrow> page_context \<Rightarrow> nat" where
  "passes_started [] c = 0"
| "passes_started (e # es) c =
     (if running c < running (step e c) then 1 else 0) + passes_started es (step e c)"

fun idle_returns :: "ctx_event list \<Rightarrow> page_context \<Rightarrow> nat" where
  "idle_returns [] c = 0"
| "idle_returns (e # es) c =
     (if syncInProgress (mgr c) \<and> \<not> syncInProgress (mgr (step e c)) then 1 else 0)
       + idle_returns es (step e c)"

definition fresh_context :: "manager \<Rightarrow> page_context" where
  "fresh_context m = \<lparr>mgr = m\<lparr>syncInProgress := False\<rparr>, running = 0, completed = 0\<rparr>"

text \<open>The single-flight invariant: the flag is set exactly while one pass is running.\<close>

definition flight_inv :: "page_context \<Rightarrow> bool" where
  "flight_inv c = (running c \<le> 1 \<and> (syncInProgress (mgr c) = (running c = 1)))"

subsection \<open>The order the specification names\<close>

text \<open>
  The specification orders a listing by priority and then by enqueue time. This key is
  that order, written from the specification's words; the code's own keys are
  \<open>index_key\<close> and \<open>req_id\<close>.
\<close>

definition enqueue_key :: "request \<Rightarrow> nat \<times> nat" where
  "enqueue_key r = (priority r, timestamp r)"

subsection \<open>Sample operations\<close>

text \<open>Concrete operations and databases on which the theorems below are instantiated.\<close>

definition sample_op :: "string \<Rightarrow> nat \<Rightarrow> nat \<Rightarrow> nat \<Rightarrow> request" where
  "sample_op i t pr n =
     \<lparr> req_id = i, req_method = ''POST'', url = ''/api/sales/'', data = None,
       timestamp = t, priority = pr, retries = n, maxRetries = 3 \<rparr>"

definition sample_request :: "nat \<Rightarrow> request" where
  "sample_request i = sample_op (replicate (Suc i) CHR ''7'') i 2 0"

definition sample_db :: "nat \<Rightarrow> db" where
  "sample_db n = \<lparr>requests = map sample_request [0..<n], failed = []\<rparr>"

definition sample_ls_request :: "nat \<Rightarrow> ls_request" where
  "sample_ls_request n =
     \<lparr> ls_id = ''1700000000000-k3x9q0c1z'', ls_method = ''POST'', ls_url = ''/api/sales/'',
       ls_data = None, ls_timestamp = 1700000000000, ls_retries = n \<rparr>"

definition sample_ls_manager :: "ls_request list \<Rightarrow> ls_manager" where
  "sample_ls_manager q =
     \<lparr> ls_isOnline = True, ls_offlineQueue = q, ls_syncInProgress = False, ls_saved = q,
       ls_notifications = [] \<rparr>"

text \<open>A network that is down: every call of the localStorage manager fails, every fetch is rejected.\<close>

definition ls_always_fails :: "ls_request \<Rightarrow> net_result" where
  "ls_always_fails r = NetError ''HTTP 500''"

definition network_down :: "fetch_request \<Rightarrow> response option" where
  "network_down r = None"

definition sample_response :: response where
  "sample_response = \<lparr>status = 200, headers = [], body = Raw ''ok''\<rparr>"

definition sample_manager :: manager where
  "sample_manager = \<lparr>isOnline = True, syncInProgress = False, database = sample_db 2, notifications = []\<rparr>"

section \<open>Properties\<close>

subsection \<open>Priority ordinals\<close>

lemma getPriorityValue_high: "getPriorityValue ''high'' = 1"
  by (simp add: getPriorityValue_def priorities_def js_or_default_def)

lemma getPriorityValue_normal: "getPriorityValue ''normal'' = 2"
  by (simp add: getPriorityValue_def priorities_def js_or_default_def)

lemma getPriorityValue_low: "getPriorityValue ''low'' = 3"
  by (simp add: getPriorityValue_def priorities_def js_or_default_def)

text \<open>
  C8. The claim: the stored priority is the ordinal of the named class, critical = 0,
  high = 1, normal = 2, low = 3. The code stores 2 for \<^verbatim>\<open>'critical'\<close>: the table gives 0,
  which \<^verbatim>\<open>|| 2\<close> replaces by 2. The operation enqueued on an empty database as critical
  is stored with priority 2, the ordinal of normal.
\<close>

theorem queueRequest_critical_stored_as_normal:
  "getPriorityValue ''critical'' = 2 \<and>
   queueRequest \<lparr>date_now = 1700000000000, random_suffix = ''k3x9q0c1z'', new_date = 1700000000000\<rparr>
       ''POST'' ''/api/sales/'' None ''critical'' \<lparr>requests = [], failed = []\<rparr>
     = Inr (''1700000000000-k3x9q0c1z'',
            \<lparr>requests = [\<lparr>req_id = ''1700000000000-k3x9q0c1z'', req_method = ''POST'',
                           url = ''/api/sales/'', data = None, timestamp = 1700000000000,
                           priority = 2, retries = 0, maxRetries = 3\<rparr>],
             failed = []\<rparr>)"
  by (simp add: queueRequest_def new_request_def addToQueue_def ids_def getPriorityValue_def
      priorities_def js_or_default_def decimal.simps digit_char_def)

subsection \<open>Listing order and the snapshot of a pass\<close>

lemma cursor_collect_take: "cursor_collect limit cs acc = acc @ take (limit - length acc) cs"
proof (induction cs arbitrary: acc)
  case Nil
  then show ?case by simp
next
  case (Cons c cs)
  show ?case
  proof (cases "length acc < limit")
    case True
    then have "limit - length acc = Suc (limit - Suc (length acc))" by simp
    with True Cons.IH [of "acc @ [c]"] show ?thesis by simp
  next
    case False
    then show ?thesis by simp
  qed
qed

lemma getQueuedRequests_take: "getQueuedRequests limit d = take limit (priority_cursor d)"
  by (simp add: getQueuedRequests_def cursor_collect_take)

lemma sorted_priority_cursor: "sorted (map index_key (priority_cursor d))"
  by (simp add: priority_cursor_def)

lemma sorted_getQueuedRequests: "sorted (map index_key (getQueuedRequests limit d))"
proof -
  have "sorted (take limit (map index_key (priority_cursor d)))"
    using sorted_priority_cursor by (rule sorted_wrt_take)
  then show ?thesis by (simp add: getQueuedRequests_take take_map)
qed

lemma length_getQueuedRequests: "length (getQueuedRequests limit d) \<le> limit"
  by (simp add: getQueuedRequests_take)

lemma sorted_sw_getQueuedRequests: "sorted (map req_id (sw_getQueuedRequests q))"
  by (simp add: sw_getQueuedRequests_def)

lemma sync_loop_sent:
  "sync_loop net clock rs p = (err, p') \<Longrightarrow>
     \<exists>k \<le> length rs. sent p' = sent p @ take k rs \<and> (err = None \<longrightarrow> k = length rs)"
proof (induction rs arbitrary: p)
  case Nil
  then show ?case by auto
next
  case (Cons r rs)
  show ?case
  proof (cases "net r")
    case NetOk
    with Cons.prems obtain k where "k \<le> length rs"
      "sent p' = (sent p @ [r]) @ take k rs" "err = None \<longrightarrow> k = length rs"
      using Cons.IH by (fastforce simp: Let_def)
    then show ?thesis by (intro exI [of _ "Suc k"]) simp
  next
    case (NetError msg)
    show ?thesis
    proof (cases "on_failure r msg (clock r) (store p)")
      case (Inl e)
      with NetError Cons.prems have "sent p' = sent p @ take 1 (r # rs)" "err \<noteq> None"
        by (auto simp: Let_def)
      then show ?thesis by (intro exI [of _ 1]) auto
    next
      case (Inr d)
      with NetError Cons.prems obtain k where "k \<le> length rs"
        "sent p' = (sent p @ [r]) @ take k rs" "err = None \<longrightarrow> k = length rs"
        using Cons.IH by (fastforce simp: Let_def)
      then show ?thesis by (intro exI [of _ "Suc k"]) simp
    qed
  qed
qed

lemma sw_sync_loop_sent: "sw_sent (sw_sync_loop net rs p) = sw_sent p @ rs"
  by (induction rs arbitrary: p) (auto simp: Let_def split: net_result.splits)

subsection \<open>The store operations\<close>

lemma ids_removeFromQueue [simp]:
  "ids (requests (removeFromQueue i d)) = filter (\<lambda>j. j \<noteq> i) (ids (requests d))"
  by (simp add: removeFromQueue_def ids_def filter_map comp_def)

lemma failed_removeFromQueue [simp]: "failed (removeFromQueue i d) = failed d"
  by (simp add: removeFromQueue_def)

lemma requests_removeFromQueue: "requests (removeFromQueue i d) = filter (\<lambda>r. req_id r \<noteq> i) (requests d)"
  by (simp add: removeFromQueue_def)

lemma moveToFailed_Inr:
  "moveToFailed r msg t d = Inr d' \<longleftrightarrow>
     req_id r \<notin> set (ids (failed d)) \<and> d' = d\<lparr>failed := failed d @ [failed_record r msg t]\<rparr>"
  by (auto simp: moveToFailed_def)

lemma req_id_failed_record [simp]: "req_id (failed_record r msg t) = req_id r"
  by (simp add: failed_record_def)

lemma retries_failed_record [simp]: "retries (failed_record r msg t) = retries r"
  by (simp add: failed_record_def)

lemma maxRetries_failed_record [simp]: "maxRetries (failed_record r msg t) = maxRetries r"
  by (simp add: failed_record_def)

lemma ids_replace:
  "ids (map (\<lambda>x. if req_id x = req_id r then r else x) xs) = ids xs"
  by (induction xs) (auto simp: ids_def)

lemma ids_updateRequest_present:
  "req_id r \<in> set (ids (requests d)) \<Longrightarrow> ids (requests (updateRequest r d)) = ids (requests d)"
  by (simp add: updateRequest_def ids_replace)

lemma failed_updateRequest [simp]: "failed (updateRequest r d) = failed d"
  by (simp add: updateRequest_def)

lemma set_requests_updateRequest:
  "set (requests (updateRequest r d)) \<subseteq> insert r (set (requests d))"
  by (auto simp: updateRequest_def)

text \<open>What one failed entry does to the stores.\<close>

lemma on_failure_cases:
  assumes "on_failure r msg t d = Inr d'"
  shows "(maxRetries r \<le> retries r + 1 \<and> req_id r \<notin> set (ids (failed d)) \<and>
          requests d' = filter (\<lambda>x. req_id x \<noteq> req_id r) (requests d) \<and>
          failed d' = failed d @ [failed_record (r\<lparr>retries := retries r + 1\<rparr>) msg t])
       \<or> (retries r + 1 < maxRetries r \<and> d' = updateRequest (r\<lparr>retries := retries r + 1\<rparr>) d)"
  using assms
  by (auto simp: on_failure_def Let_def moveToFailed_Inr removeFromQueue_def split: if_splits sum.splits)

lemma on_failure_Inl:
  "on_failure r msg t d = Inl e \<Longrightarrow> maxRetries r \<le> retries r + 1 \<and> req_id r \<in> set (ids (failed d))"
  by (auto simp: on_failure_def Let_def moveToFailed_def split: if_splits sum.splits)

subsection \<open>One step of the drain loop\<close>

lemma sync_loop_Cons_cases:
  assumes "sync_loop net clock (r # rs) p = (err, p')"
  obtains
    (synced) p1 where "net r = NetOk" "store p1 = removeFromQueue (req_id r) (store p)"
      "sync_loop net clock rs p1 = (err, p')"
  | (abort) msg e where "net r = NetError msg" "on_failure r msg (clock r) (store p) = Inl e"
      "err = Some e" "store p' = store p"
  | (kept) msg d p1 where "net r = NetError msg" "on_failure r msg (clock r) (store p) = Inr d"
      "store p1 = d" "sync_loop net clock rs p1 = (err, p')"
proof (cases "net r")
  case NetOk
  with assms show ?thesis by (intro synced) (auto simp: Let_def)
next
  case (NetError msg)
  show ?thesis
  proof (cases "on_failure r msg (clock r) (store p)")
    case (Inl e)
    with NetError assms show ?thesis by (intro abort [of msg e]) (auto simp: Let_def)
  next
    case (Inr d)
    with NetError assms show ?thesis by (intro kept [of msg d]) (auto simp: Let_def)
  qed
qed

text \<open>Records whose id is outside the snapshot are not touched by the loop.\<close>

lemma filter_outside_updateRequest:
  "req_id r \<in> S \<Longrightarrow>
     filter (\<lambda>x. req_id x \<notin> S) (requests (updateRequest r d)) = filter (\<lambda>x. req_id x \<notin> S) (requests d)"
proof -
  assume "req_id r \<in> S"
  then have "filter (\<lambda>x. req_id x \<notin> S) (map (\<lambda>x. if req_id x = req_id r then r else x) xs)
      = filter (\<lambda>x. req_id x \<notin> S) xs" for xs
    by (induction xs) auto
  with \<open>req_id r \<in> S\<close> show ?thesis by (simp add: updateRequest_def)
qed

lemma filter_outside_remove:
  "i \<in> S \<Longrightarrow>
     filter (\<lambda>x. req_id x \<notin> S) (requests (removeFromQueue i d)) = filter (\<lambda>x. req_id x \<notin> S) (requests d)"
  by (auto simp: removeFromQueue_def intro: filter_cong)

lemma filter_outside_on_failure:
  assumes "on_failure r msg t d = Inr d'" "req_id r \<in> S"
  shows "filter (\<lambda>x. req_id x \<notin> S) (requests d') = filter (\<lambda>x. req_id x \<notin> S) (requests d)"
  using on_failure_cases [OF assms(1)]
proof
  assume "maxRetries r \<le> retries r + 1 \<and> req_id r \<notin> set (ids (failed d)) \<and>
          requests d' = filter (\<lambda>x. req_id x \<noteq> req_id r) (requests d) \<and>
          failed d' = failed d @ [failed_record (r\<lparr>retries := retries r + 1\<rparr>) msg t]"
  with assms(2) show ?thesis by (auto intro: filter_cong)
next
  assume "retries r + 1 < maxRetries r \<and> d' = updateRequest (r\<lparr>retries := retries r + 1\<rparr>) d"
  with assms(2) show ?thesis by (simp add: filter_outside_updateRequest)
qed

lemma sync_loop_outside:
  "sync_loop net clock rs p = (err, p') \<Longrightarrow> set (ids rs) \<subseteq> S \<Longrightarrow>
     filter (\<lambda>x. req_id x \<notin> S) (requests (store p')) = filter (\<lambda>x. req_id x \<notin> S) (requests (store p))"
proof (induction rs arbitrary: p)
  case Nil
  then show ?case by simp
next
  case (Cons r rs)
  from Cons.prems(2) have r: "req_id r \<in> S" and rs: "set (ids rs) \<subseteq> S"
    by (auto simp: ids_def)
  from Cons.prems(1) show ?case
  proof (cases rule: sync_loop_Cons_cases)
    case (synced p1)
    with Cons.IH [OF synced(3) rs] r show ?thesis by (simp add: filter_outside_remove)
  next
    case (abort msg e)
    then show ?thesis by simp
  next
    case (kept msg d p1)
    with Cons.IH [OF kept(4) rs] r show ?thesis by (simp add: filter_outside_on_failure)
  qed
qed

subsection \<open>The limit of a pass\<close>

lemma distinct_ids_priority_cursor:
  "distinct (ids (requests d)) \<Longrightarrow> distinct (ids (priority_cursor d))"
  by (simp add: ids_def priority_cursor_def distinct_map)

lemma set_priority_cursor [simp]: "set (priority_cursor d) = set (requests d)"
  by (simp add: priority_cursor_def)

lemma beyond_limit_outside:
  assumes "distinct (ids (requests d))" "x \<in> set (drop limit (priority_cursor d))"
  shows "req_id x \<notin> set (ids (getQueuedRequests limit d))"
proof -
  have "distinct (ids (take limit (priority_cursor d)) @ ids (drop limit (priority_cursor d)))"
    using distinct_ids_priority_cursor [OF assms(1)]
    by (simp add: ids_def flip: map_append)
  with assms(2) show ?thesis
    by (auto simp: getQueuedRequests_take ids_def)
qed

text \<open>
  C10. With its default limit \<^verbatim>\<open>getQueuedRequests\<close> returns at most 50 records, so a
  drain pass sends at most 50 operations, all of them from that listing; the records that
  the priority cursor would visit after the first 50 are still in the queue, unchanged,
  after the pass (the keys of the store being distinct).
\<close>

theorem drain_pass_at_most_50:
  "length (getQueuedRequests default_limit d) \<le> 50 \<and>
   (\<forall>err p. drain_pass net clock d = (err, p) \<longrightarrow>
      length (sent p) \<le> 50 \<and>
      set (sent p) \<subseteq> set (getQueuedRequests default_limit d) \<and>
      (distinct (ids (requests d)) \<longrightarrow>
         set (drop 50 (priority_cursor d)) \<subseteq> set (requests (store p))))"
proof (intro conjI allI impI)
  show len: "length (getQueuedRequests default_limit d) \<le> 50"
    using length_getQueuedRequests [of default_limit d] by (simp add: default_limit_def)
  fix err p
  assume run: "drain_pass net clock d = (err, p)"
  then obtain k where k: "k \<le> length (getQueuedRequests default_limit d)"
    "sent p = take k (getQueuedRequests default_limit d)"
    using sync_loop_sent [of net clock "getQueuedRequests default_limit d" "init_pass d" err p]
    by (auto simp: drain_pass_def init_pass_def)
  from k len show "length (sent p) \<le> 50" by simp
  from k show "set (sent p) \<subseteq> set (getQueuedRequests default_limit d)"
    by (auto dest: in_set_takeD)
  assume dist: "distinct (ids (requests d))"
  show "set (drop 50 (priority_cursor d)) \<subseteq> set (requests (store p))"
  proof
    fix x
    assume x: "x \<in> set (drop 50 (priority_cursor d))"
    then have out: "req_id x \<notin> set (ids (getQueuedRequests default_limit d))"
      using beyond_limit_outside [OF dist, of x default_limit] by (simp add: default_limit_def)
    from x have "x \<in> set (requests d)"
      by (auto dest: in_set_dropD)
    with out have "x \<in> set (filter (\<lambda>x. req_id x \<notin> set (ids (getQueuedRequests default_limit d))) (requests d))"
      by simp
    also have "filter (\<lambda>x. req_id x \<notin> set (ids (getQueuedRequests default_limit d))) (requests d)
        = filter (\<lambda>x. req_id x \<notin> set (ids (getQueuedRequests default_limit d))) (requests (store p))"
      using sync_loop_outside [of net clock "getQueuedRequests default_limit d" "init_pass d" err p
          "set (ids (getQueuedRequests default_limit d))"] run
      by (simp add: drain_pass_def init_pass_def)
    finally show "x \<in> set (requests (store p))" by simp
  qed
qed

theorem drain_pass_at_most_50_witness:
  "distinct (ids (requests (sample_db 52))) \<and>
   drop 50 (priority_cursor (sample_db 52)) = [sample_request 50, sample_request 51] \<and>
   length (sent (snd (drain_pass (\<lambda>r. NetOk) (\<lambda>r. 0) (sample_db 52)))) \<le> 50 \<and>
   {sample_request 50, sample_request 51}
     \<subseteq> set (requests (store (snd (drain_pass (\<lambda>r. NetOk) (\<lambda>r. 0) (sample_db 52)))))"
proof -
  have d: "distinct (ids (requests (sample_db 52)))"
    by code_simp
  have b: "drop 50 (priority_cursor (sample_db 52)) = [sample_request 50, sample_request 51]"
    by code_simp
  obtain err p where run: "drain_pass (\<lambda>r. NetOk) (\<lambda>r. 0) (sample_db 52) = (err, p)"
    by (cases "drain_pass (\<lambda>r. NetOk) (\<lambda>r. 0) (sample_db 52)")
  from drain_pass_at_most_50 [of "sample_db 52" "\<lambda>r. NetOk" "\<lambda>r. 0"] run d b
  show ?thesis by simp
qed

subsection \<open>The order of a listing\<close>

lemma sorted_priority_of_index_key:
  "sorted (map index_key xs) \<Longrightarrow> sorted (map priority xs)"
  by (induction xs) (auto simp: index_key_def less_eq_prod_def)

lemma set_getQueuedRequests:
  "length (requests d) \<le> limit \<Longrightarrow> set (getQueuedRequests limit d) = set (requests d)"
  by (simp add: getQueuedRequests_take priority_cursor_def)

lemma sw_syncOfflineData_sent:
  "snd (snd (sw_syncOfflineData net (Db q))) = sw_getQueuedRequests q"
  by (simp add: sw_syncOfflineData_def Let_def sw_sync_loop_sent)

text \<open>
  C1, as the code has it. The IndexedDB manager lists the pending operations in ascending
  order of the priority ordinal and, among equal priorities, of the id (the id begins with
  the \<^verbatim>\<open>Date.now()\<close> reading of the enqueue); when the queue holds no more than \<^verbatim>\<open>limit\<close>
  operations the listing holds them all. A drain pass of the manager sends a prefix of that
  listing in that order, and the whole listing when no store operation is rejected. The
  service worker lists its store in ascending order of the id alone, and its pass sends
  the operations in that order.
\<close>

theorem listing_order:
  "sorted (map index_key (getQueuedRequests limit d)) \<and>
   sorted (map priority (getQueuedRequests limit d)) \<and>
   (length (requests d) \<le> limit \<longrightarrow> set (getQueuedRequests limit d) = set (requests d)) \<and>
   (\<forall>err p. drain_pass net clock d = (err, p) \<longrightarrow>
      (\<exists>k. sent p = take k (getQueuedRequests default_limit d)) \<and>
      (err = None \<longrightarrow> sent p = getQueuedRequests default_limit d)) \<and>
   sorted (map req_id (sw_getQueuedRequests q)) \<and>
   set (sw_getQueuedRequests q) = set q \<and>
   snd (snd (sw_syncOfflineData swnet (Db q))) = sw_getQueuedRequests q"
proof (intro conjI allI impI)
  show "sorted (map index_key (getQueuedRequests limit d))"
    by (rule sorted_getQueuedRequests)
  then show "sorted (map priority (getQueuedRequests limit d))"
    by (rule sorted_priority_of_index_key)
  show "set (getQueuedRequests limit d) = set (requests d)" if "length (requests d) \<le> limit"
    using that by (rule set_getQueuedRequests)
  show "sorted (map req_id (sw_getQueuedRequests q))"
    by (rule sorted_sw_getQueuedRequests)
  show "set (sw_getQueuedRequests q) = set q"
    by (simp add: sw_getQueuedRequests_def)
  show "snd (snd (sw_syncOfflineData swnet (Db q))) = sw_getQueuedRequests q"
    by (rule sw_syncOfflineData_sent)
next
  fix err p
  assume run: "drain_pass net clock d = (err, p)"
  then obtain k where k: "sent p = take k (getQueuedRequests default_limit d)"
    "err = None \<longrightarrow> k = length (getQueuedRequests default_limit d)"
    using sync_loop_sent [of net clock "getQueuedRequests default_limit d" "init_pass d" err p]
    by (auto simp: drain_pass_def init_pass_def)
  from k(1) show "\<exists>k. sent p = take k (getQueuedRequests default_limit d)" ..
  from k show "sent p = getQueuedRequests default_limit d" if "err = None"
    using that by simp
qed

theorem listing_order_witness:
  "getQueuedRequests default_limit
      \<lparr>requests = [sample_op ''1700000000000-low'' 1700000000000 3 0,
                   sample_op ''1700000000001-high'' 1700000000001 1 0,
                   sample_op ''1700000000002-normal'' 1700000000002 2 0],
       failed = []\<rparr>
     = [sample_op ''1700000000001-high'' 1700000000001 1 0,
        sample_op ''1700000000002-normal'' 1700000000002 2 0,
        sample_op ''1700000000000-low'' 1700000000000 3 0] \<and>
   fst (drain_pass (\<lambda>r. NetOk) (\<lambda>r. 0)
      \<lparr>requests = [sample_op ''1700000000000-low'' 1700000000000 3 0,
                   sample_op ''1700000000001-high'' 1700000000001 1 0,
                   sample_op ''1700000000002-normal'' 1700000000002 2 0],
       failed = []\<rparr>) = None \<and>
   sent (snd (drain_pass (\<lambda>r. NetOk) (\<lambda>r. 0)
      \<lparr>requests = [sample_op ''1700000000000-low'' 1700000000000 3 0,
                   sample_op ''1700000000001-high'' 1700000000001 1 0,
                   sample_op ''1700000000002-normal'' 1700000000002 2 0],
       failed = []\<rparr>))
     = [sample_op ''1700000000001-high'' 1700000000001 1 0,
        sample_op ''1700000000002-normal'' 1700000000002 2 0,
        sample_op ''1700000000000-low'' 1700000000000 3 0]"
proof -
  let ?d = "\<lparr>requests = [sample_op ''1700000000000-low'' 1700000000000 3 0,
                   sample_op ''1700000000001-high'' 1700000000001 1 0,
                   sample_op ''1700000000002-normal'' 1700000000002 2 0],
       failed = []\<rparr>"
  have l: "getQueuedRequests default_limit ?d
     = [sample_op ''1700000000001-high'' 1700000000001 1 0,
        sample_op ''1700000000002-normal'' 1700000000002 2 0,
        sample_op ''1700000000000-low'' 1700000000000 3 0]"
    by (simp add: getQueuedRequests_def priority_cursor_def default_limit_def index_key_def sample_op_def)
  have ok: "fst (drain_pass (\<lambda>r. NetOk) (\<lambda>r. 0) ?d) = None"
    by (simp add: drain_pass_def init_pass_def getQueuedRequests_def priority_cursor_def
        default_limit_def index_key_def sample_op_def)
  obtain err p where run: "drain_pass (\<lambda>r. NetOk) (\<lambda>r. 0) ?d = (err, p)"
    by (cases "drain_pass (\<lambda>r. NetOk) (\<lambda>r. 0) ?d")
  from listing_order [of default_limit ?d "\<lambda>r. NetOk" "\<lambda>r. 0"] run ok l
  show ?thesis by simp
qed

text \<open>
  C1 as stated fails twice. Two operations of equal priority enqueued within the same
  millisecond are listed by the random suffix of their ids: the one enqueued second, with
  the later timestamp, comes first. And the service worker's listing of a low operation
  enqueued before a high one keeps the low one first.
\<close>

theorem listing_by_enqueue_time_counterexample:
  "queueRequest \<lparr>date_now = 1700000000000, random_suffix = ''zzz'', new_date = 1700000000000\<rparr>
      ''POST'' ''/api/sales/'' None ''normal'' \<lparr>requests = [], failed = []\<rparr>
     = Inr (''1700000000000-zzz'',
            \<lparr>requests = [sample_op ''1700000000000-zzz'' 1700000000000 2 0], failed = []\<rparr>) \<and>
   queueRequest \<lparr>date_now = 1700000000000, random_suffix = ''aaa'', new_date = 1700000000001\<rparr>
      ''POST'' ''/api/sales/'' None ''normal''
      \<lparr>requests = [sample_op ''1700000000000-zzz'' 1700000000000 2 0], failed = []\<rparr>
     = Inr (''1700000000000-aaa'',
            \<lparr>requests = [sample_op ''1700000000000-zzz'' 1700000000000 2 0,
                         sample_op ''1700000000000-aaa'' 1700000000001 2 0], failed = []\<rparr>) \<and>
   getQueuedRequests default_limit
      \<lparr>requests = [sample_op ''1700000000000-zzz'' 1700000000000 2 0,
                   sample_op ''1700000000000-aaa'' 1700000000001 2 0], failed = []\<rparr>
     = [sample_op ''1700000000000-aaa'' 1700000000001 2 0,
        sample_op ''1700000000000-zzz'' 1700000000000 2 0] \<and>
   \<not> sorted (map enqueue_key
      (getQueuedRequests default_limit
         \<lparr>requests = [sample_op ''1700000000000-zzz'' 1700000000000 2 0,
                      sample_op ''1700000000000-aaa'' 1700000000001 2 0], failed = []\<rparr>)) \<and>
   sw_getQueuedRequests
      [sample_op ''1700000000000-aaa'' 1700000000000 3 0,
       sample_op ''1700000000001-bbb'' 1700000000001 1 0]
     = [sample_op ''1700000000000-aaa'' 1700000000000 3 0,
        sample_op ''1700000000001-bbb'' 1700000000001 1 0] \<and>
   \<not> sorted (map enqueue_key
      (sw_getQueuedRequests
         [sample_op ''1700000000000-aaa'' 1700000000000 3 0,
          sample_op ''1700000000001-bbb'' 1700000000001 1 0]))"
  by (simp add: queueRequest_def new_request_def addToQueue_def ids_def getPriorityValue_def
      priorities_def js_or_default_def decimal.simps digit_char_def sample_op_def
      getQueuedRequests_def priority_cursor_def default_limit_def index_key_def
      sw_getQueuedRequests_def enqueue_key_def)

subsection \<open>Where the records of a pass come from\<close>

lemma distinct_ids_filter:
  "distinct (ids xs) \<Longrightarrow> distinct (ids (filter P xs))"
  by (simp add: ids_def distinct_map_filter)

lemma distinct_removeFromQueue:
  "distinct (ids (requests d)) \<Longrightarrow> distinct (ids (requests (removeFromQueue i d)))"
  by simp

lemma distinct_updateRequest:
  "distinct (ids (requests d)) \<Longrightarrow> distinct (ids (requests (updateRequest r d)))"
  by (cases "req_id r \<in> set (ids (requests d))")
    (auto simp: ids_updateRequest_present, auto simp: updateRequest_def ids_def)

lemma distinct_on_failure:
  assumes "on_failure r msg t d = Inr d'" "distinct (ids (requests d))"
  shows "distinct (ids (requests d'))"
  using on_failure_cases [OF assms(1)] assms(2)
  by (auto simp: distinct_updateRequest distinct_ids_filter)

lemma sync_loop_distinct:
  "sync_loop net clock rs p = (err, p') \<Longrightarrow> distinct (ids (requests (store p))) \<Longrightarrow>
     distinct (ids (requests (store p')))"
proof (induction rs arbitrary: p)
  case Nil
  then show ?case by simp
next
  case (Cons r rs)
  from Cons.prems(1) show ?case
  proof (cases rule: sync_loop_Cons_cases)
    case (synced p1)
    with Cons.prems(2) have "distinct (ids (requests (store p1)))" by simp
    with synced(3) show ?thesis by (rule Cons.IH)
  next
    case (abort msg e)
    with Cons.prems(2) show ?thesis by simp
  next
    case (kept msg d p1)
    with Cons.prems(2) have "distinct (ids (requests (store p1)))"
      by (simp add: distinct_on_failure)
    with kept(4) show ?thesis by (rule Cons.IH)
  qed
qed

text \<open>Where the records found in the stores after the loop come from.\<close>

lemma on_failure_requests_origin:
  assumes "on_failure r msg t d = Inr d'" "x \<in> set (requests d')"
  shows "x \<in> set (requests d) \<or> (x = r\<lparr>retries := retries r + 1\<rparr> \<and> retries r + 1 < maxRetries r)"
  using on_failure_cases [OF assms(1)] assms(2) set_requests_updateRequest
  by fastforce

lemma on_failure_failed_origin:
  assumes "on_failure r msg t d = Inr d'" "f \<in> set (failed d')"
  shows "f \<in> set (failed d) \<or>
         (f = failed_record (r\<lparr>retries := retries r + 1\<rparr>) msg t \<and> maxRetries r \<le> retries r + 1)"
  using on_failure_cases [OF assms(1)] assms(2)
  by auto

lemma sync_loop_requests_origin:
  "sync_loop net clock rs p = (err, p') \<Longrightarrow> x \<in> set (requests (store p')) \<Longrightarrow>
     x \<in> set (requests (store p)) \<or>
     (\<exists>r\<in>set rs. x = r\<lparr>retries := retries r + 1\<rparr> \<and> retries r + 1 < maxRetries r)"
proof (induction rs arbitrary: p)
  case Nil
  then show ?case by simp
next
  case (Cons r rs)
  from Cons.prems(1) show ?case
  proof (cases rule: sync_loop_Cons_cases)
    case (synced p1)
    from Cons.IH [OF synced(3) Cons.prems(2)] synced(2) show ?thesis
      by (auto simp: requests_removeFromQueue)
  next
    case (abort msg e)
    with Cons.prems(2) show ?thesis by simp
  next
    case (kept msg d p1)
    from Cons.IH [OF kept(4) Cons.prems(2)] kept(2,3) on_failure_requests_origin [of r msg "clock r" "store p" d x]
    show ?thesis by auto
  qed
qed

lemma sync_loop_failed_origin:
  "sync_loop net clock rs p = (err, p') \<Longrightarrow> f \<in> set (failed (store p')) \<Longrightarrow>
     f \<in> set (failed (store p)) \<or>
     (\<exists>r\<in>set rs. \<exists>msg t. f = failed_record (r\<lparr>retries := retries r + 1\<rparr>) msg t
         \<and> maxRetries r \<le> retries r + 1)"
proof (induction rs arbitrary: p)
  case Nil
  then show ?case by simp
next
  case (Cons r rs)
  from Cons.prems(1) show ?case
  proof (cases rule: sync_loop_Cons_cases)
    case (synced p1)
    from Cons.IH [OF synced(3) Cons.prems(2)] synced(2) show ?thesis
      by auto
  next
    case (abort msg e)
    with Cons.prems(2) show ?thesis by simp
  next
    case (kept msg d p1)
    from Cons.IH [OF kept(4) Cons.prems(2)] kept(2,3) on_failure_failed_origin [of r msg "clock r" "store p" d f]
    show ?thesis by auto
  qed
qed

lemma sw_sync_loop_queue: "set (sw_queue (sw_sync_loop net rs p)) \<subseteq> set (sw_queue p)"
proof (induction rs arbitrary: p)
  case Nil
  show ?case by simp
next
  case (Cons r rs)
  show ?case
  proof (cases "net r")
    case NetOk
    have "set (sw_queue (sw_sync_loop net rs
        (p\<lparr>sw_sent := sw_sent p @ [r], sw_queue := sw_removeFromQueue (req_id r) (sw_queue p)\<rparr>)))
      \<subseteq> set (sw_removeFromQueue (req_id r) (sw_queue p))"
      using Cons.IH [of "p\<lparr>sw_sent := sw_sent p @ [r], sw_queue := sw_removeFromQueue (req_id r) (sw_queue p)\<rparr>"]
      by simp
    with NetOk show ?thesis by (auto simp: Let_def sw_removeFromQueue_def)
  next
    case (NetError msg)
    with Cons.IH [of "p\<lparr>sw_sent := sw_sent p @ [r]\<rparr>"] show ?thesis by (simp add: Let_def)
  qed
qed

lemma ls_sync_loop_origin:
  "ls_sync_loop net rs (q, res, calls) = (q', res', calls') \<Longrightarrow> x \<in> set q' \<Longrightarrow>
     x \<in> set q \<or> (\<exists>r\<in>set rs. x = r\<lparr>ls_retries := ls_retries r + 1\<rparr>)"
proof (induction rs arbitrary: q res calls)
  case Nil
  then show ?case by simp
next
  case (Cons r rs)
  show ?case
  proof (cases "net r")
    case NetOk
    with Cons.prems have "ls_sync_loop net rs (q, res\<lparr>ls_success := ls_success res + 1\<rparr>, calls @ [r])
        = (q', res', calls')" by simp
    from Cons.IH [OF this Cons.prems(2)] show ?thesis by auto
  next
    case (NetError msg)
    show ?thesis
    proof (cases "ls_retries r + 1 < 3")
      case True
      with NetError Cons.prems have "ls_sync_loop net rs
          (q @ [r\<lparr>ls_retries := ls_retries r + 1\<rparr>],
           res\<lparr>ls_failed := ls_failed res + 1\<rparr>, calls @ [r]) = (q', res', calls')"
        by (simp add: Let_def)
      from Cons.IH [OF this Cons.prems(2)] show ?thesis by auto
    next
      case False
      with NetError Cons.prems have "ls_sync_loop net rs
          (q, res\<lparr>ls_failed := ls_failed res + 1\<rparr>, calls @ [r]) = (q', res', calls')"
        by (simp add: Let_def)
      from Cons.IH [OF this Cons.prems(2)] show ?thesis by auto
    qed
  qed
qed

lemma ls_syncOfflineData_origin:
  assumes "x \<in> set (ls_offlineQueue (fst (ls_syncOfflineData net m)))"
  shows "x \<in> set (ls_offlineQueue m) \<or>
         (\<exists>r\<in>set (ls_offlineQueue m). x = r\<lparr>ls_retries := ls_retries r + 1\<rparr>)"
proof (cases "ls_syncInProgress m \<or> \<not> ls_isOnline m \<or> length (ls_offlineQueue m) = 0")
  case True
  with assms show ?thesis by (auto simp: ls_syncOfflineData_def split: if_splits)
next
  case False
  obtain q res calls where loop: "ls_sync_loop net (ls_offlineQueue m)
      ([], \<lparr>ls_success = 0, ls_failed = 0, ls_total = length (ls_offlineQueue m)\<rparr>, []) = (q, res, calls)"
    by (cases "ls_sync_loop net (ls_offlineQueue m)
      ([], \<lparr>ls_success = 0, ls_failed = 0, ls_total = length (ls_offlineQueue m)\<rparr>, [])") auto
  with False assms have "x \<in> set q"
    by (simp add: ls_syncOfflineData_def Let_def ls_showNotification_def ls_saveQueue_def
        ls_show_results_def split: if_splits)
  with ls_sync_loop_origin [OF loop] show ?thesis by auto
qed

lemma set_getQueuedRequests_subset: "set (getQueuedRequests limit d) \<subseteq> set (requests d)"
  by (auto simp: getQueuedRequests_take dest: in_set_takeD)

lemma queueRequest_Inr:
  "queueRequest e m u dat pr d = Inr (i, d') \<Longrightarrow>
     req_id (new_request e m u dat pr) \<notin> set (ids (requests d)) \<and>
     i = req_id (new_request e m u dat pr) \<and>
     d' = d\<lparr>requests := requests d @ [new_request e m u dat pr]\<rparr>"
  by (auto simp: queueRequest_def addToQueue_def Let_def split: if_splits)

lemma new_request_counters [simp]:
  "retries (new_request e m u dat pr) = 0" "maxRetries (new_request e m u dat pr) = 3"
  by (simp_all add: new_request_def)

lemma drain_pass_requests_origin:
  assumes "drain_pass net clock d = (err, p)" "x \<in> set (requests (store p))"
  shows "x \<in> set (requests d) \<or>
         (\<exists>r\<in>set (requests d). x = r\<lparr>retries := retries r + 1\<rparr> \<and> retries r + 1 < maxRetries r)"
  using sync_loop_requests_origin [of net clock "getQueuedRequests default_limit d" "init_pass d" err p x]
    assms set_getQueuedRequests_subset [of default_limit d]
  by (auto simp: drain_pass_def init_pass_def)

lemma drain_pass_failed_origin:
  assumes "drain_pass net clock d = (err, p)" "f \<in> set (failed (store p))"
  shows "f \<in> set (failed d) \<or>
         (\<exists>r\<in>set (requests d). \<exists>msg t. f = failed_record (r\<lparr>retries := retries r + 1\<rparr>) msg t
             \<and> maxRetries r \<le> retries r + 1)"
  using sync_loop_failed_origin [of net clock "getQueuedRequests default_limit d" "init_pass d" err p f]
    assms set_getQueuedRequests_subset [of default_limit d]
  by (auto simp: drain_pass_def init_pass_def)

lemma drain_pass_distinct:
  "drain_pass net clock d = (err, p) \<Longrightarrow> distinct (ids (requests d)) \<Longrightarrow>
     distinct (ids (requests (store p)))"
  using sync_loop_distinct [of net clock "getQueuedRequests default_limit d" "init_pass d" err p]
  by (simp add: drain_pass_def init_pass_def)

lemma reachable_distinct: "reachable d \<Longrightarrow> distinct (ids (requests d))"
proof (induction rule: reachable.induct)
  case initial
  show ?case by (simp add: empty_db_def ids_def)
next
  case (enqueued d e m u dat pr i d')
  from queueRequest_Inr [OF enqueued(2)] enqueued(3) show ?case
    by (auto simp: ids_def)
next
  case (drained d net clock err p)
  then show ?case by (simp add: drain_pass_distinct)
qed

lemma reachable_queue_bounds:
  "reachable d \<Longrightarrow> x \<in> set (requests d) \<Longrightarrow> retries x < maxRetries x \<and> maxRetries x = 3"
proof (induction arbitrary: x rule: reachable.induct)
  case initial
  then show ?case by (simp add: empty_db_def)
next
  case (enqueued d e m u dat pr i d')
  from queueRequest_Inr [OF enqueued(2)] enqueued(3,4) show ?case
    by auto
next
  case (drained d net clock err p)
  from drain_pass_requests_origin [OF drained(2,4)] drained(3) show ?case
    by auto
qed

lemma reachable_failed_bounds:
  "reachable d \<Longrightarrow> f \<in> set (failed d) \<Longrightarrow> retries f = maxRetries f \<and> maxRetries f = 3"
proof (induction arbitrary: f rule: reachable.induct)
  case initial
  then show ?case by (simp add: empty_db_def)
next
  case (enqueued d e m u dat pr i d')
  from queueRequest_Inr [OF enqueued(2)] enqueued(3,4) show ?case
    by auto
next
  case (drained d net clock err p)
  from drain_pass_failed_origin [OF drained(2,4)]
  show ?case
  proof
    assume "f \<in> set (failed d)"
    then show ?thesis by (rule drained(3))
  next
    assume "\<exists>r\<in>set (requests d). \<exists>msg t. f = failed_record (r\<lparr>retries := retries r + 1\<rparr>) msg t
             \<and> maxRetries r \<le> retries r + 1"
    then obtain r msg t where r: "r \<in> set (requests d)"
      "f = failed_record (r\<lparr>retries := retries r + 1\<rparr>) msg t" "maxRetries r \<le> retries r + 1"
      by blast
    from reachable_queue_bounds [OF drained(1) r(1)] r(2,3) show ?thesis by simp
  qed
qed

lemma same_id_same_record:
  "distinct (ids xs) \<Longrightarrow> x \<in> set xs \<Longrightarrow> y \<in> set xs \<Longrightarrow> req_id x = req_id y \<Longrightarrow> x = y"
  by (auto simp: ids_def distinct_map dest: inj_onD)

lemma sync_loop_failed_grows:
  "sync_loop net clock rs p = (err, p') \<Longrightarrow> set (failed (store p)) \<subseteq> set (failed (store p'))"
proof (induction rs arbitrary: p)
  case Nil
  then show ?case by simp
next
  case (Cons r rs)
  from Cons.prems(1) show ?case
  proof (cases rule: sync_loop_Cons_cases)
    case (synced p1)
    from Cons.IH [OF synced(3)] synced(2) show ?thesis by simp
  next
    case (abort msg e)
    then show ?thesis by simp
  next
    case (kept msg d p1)
    from Cons.IH [OF kept(4)] kept(3) on_failure_cases [OF kept(2)] show ?thesis by auto
  qed
qed

text \<open>
  C3. In every database the IndexedDB manager can produce, each record of the failed store
  has \<^verbatim>\<open>retries\<close> equal to \<^verbatim>\<open>maxRetries\<close>. A drain pass never lowers the counter of an
  operation: the record found afterwards under the id of a queued operation, in the queue
  or in the failed store, has at least the \<^verbatim>\<open>retries\<close> it had, and records of the failed
  store stay. \<^verbatim>\<open>queueRequest\<close> leaves the existing records as they are. The service
  worker's pass changes no record of its store, and the localStorage manager's pass keeps
  a record only with its counter raised by one.
\<close>

theorem retries_never_decrease:
  assumes "reachable d"
  shows "(\<forall>f\<in>set (failed d). retries f = maxRetries f) \<and>
         (\<forall>net clock err p. drain_pass net clock d = (err, p) \<longrightarrow>
            (\<forall>r\<in>set (requests d). \<forall>x\<in>set (requests (store p)).
               req_id x = req_id r \<longrightarrow> retries r \<le> retries x) \<and>
            (\<forall>r\<in>set (requests d). \<forall>f\<in>set (failed (store p)).
               req_id f = req_id r \<longrightarrow> retries r \<le> retries f) \<and>
            (\<forall>f\<in>set (failed d). f \<in> set (failed (store p)))) \<and>
         (\<forall>e m u dat pr i d'. queueRequest e m u dat pr d = Inr (i, d') \<longrightarrow>
            (\<forall>r\<in>set (requests d). r \<in> set (requests d')) \<and> failed d' = failed d) \<and>
         (\<forall>swnet rs sp. set (sw_queue (sw_sync_loop swnet rs sp)) \<subseteq> set (sw_queue sp)) \<and>
         (\<forall>lsnet m. \<forall>x\<in>set (ls_offlineQueue (fst (ls_syncOfflineData lsnet m))).
            x \<in> set (ls_offlineQueue m) \<or>
            (\<exists>r\<in>set (ls_offlineQueue m). x = r\<lparr>ls_retries := ls_retries r + 1\<rparr>))"
proof (intro conjI allI impI ballI)
  fix f assume "f \<in> set (failed d)"
  with assms show "retries f = maxRetries f" by (simp add: reachable_failed_bounds)
next
  fix net clock err p r x
  assume run: "drain_pass net clock d = (err, p)" and r: "r \<in> set (requests d)"
    and x: "x \<in> set (requests (store p))" and same: "req_id x = req_id r"
  from drain_pass_requests_origin [OF run x] show "retries r \<le> retries x"
  proof
    assume "x \<in> set (requests d)"
    with same r reachable_distinct [OF assms] have "x = r" by (auto dest: same_id_same_record)
    then show ?thesis by simp
  next
    assume "\<exists>y\<in>set (requests d). x = y\<lparr>retries := retries y + 1\<rparr> \<and> retries y + 1 < maxRetries y"
    then obtain y where y: "y \<in> set (requests d)" "x = y\<lparr>retries := retries y + 1\<rparr>" by blast
    with same r reachable_distinct [OF assms] have "y = r" by (auto dest: same_id_same_record)
    with y show ?thesis by simp
  qed
next
  fix net clock err p r f
  assume run: "drain_pass net clock d = (err, p)" and r: "r \<in> set (requests d)"
    and f: "f \<in> set (failed (store p))" and same: "req_id f = req_id r"
  have "reachable (store p)" using assms run by (rule reachable.drained)
  from reachable_failed_bounds [OF this f] reachable_queue_bounds [OF assms r]
  show "retries r \<le> retries f" by simp
next
  fix net clock err p f
  assume run: "drain_pass net clock d = (err, p)" and f: "f \<in> set (failed d)"
  have "set (failed d) \<subseteq> set (failed (store p))"
    using sync_loop_failed_grows [of net clock "getQueuedRequests default_limit d" "init_pass d" err p] run
    by (simp add: drain_pass_def init_pass_def)
  with f show "f \<in> set (failed (store p))" by auto
next
  fix e m u dat pr i d' r
  assume "queueRequest e m u dat pr d = Inr (i, d')" "r \<in> set (requests d)"
  then show "r \<in> set (requests d')" by (auto dest: queueRequest_Inr)
next
  fix e m u dat pr i d'
  assume "queueRequest e m u dat pr d = Inr (i, d')"
  then show "failed d' = failed d" by (auto dest: queueRequest_Inr)
next
  fix swnet rs sp
  show "set (sw_queue (sw_sync_loop swnet rs sp)) \<subseteq> set (sw_queue sp)"
    by (rule sw_sync_loop_queue)
next
  fix lsnet m x
  assume "x \<in> set (ls_offlineQueue (fst (ls_syncOfflineData lsnet m)))"
  then show "x \<in> set (ls_offlineQueue m) \<or>
            (\<exists>r\<in>set (ls_offlineQueue m). x = r\<lparr>ls_retries := ls_retries r + 1\<rparr>)"
    by (rule ls_syncOfflineData_origin)
qed

lemmas drain_eval =
  drain_pass_def getQueuedRequests_def priority_cursor_def default_limit_def index_key_def
  init_pass_def on_failure_def moveToFailed_def removeFromQueue_def updateRequest_def ids_def
  failed_record_def sample_op_def Let_def

lemma reachable_drain: "reachable d \<Longrightarrow> reachable (store (snd (drain_pass net clock d)))"
  using reachable.drained [of d net clock "fst (drain_pass net clock d)" "snd (drain_pass net clock d)"]
  by simp

theorem retries_never_decrease_witness:
  "reachable \<lparr>requests = [sample_op ''1700000000000-k3x9q0c1z'' 1700000000000 2 0], failed = []\<rparr> \<and>
   store (snd (drain_pass (\<lambda>r. NetError ''HTTP 500'') (\<lambda>r. 1700000000500)
     (store (snd (drain_pass (\<lambda>r. NetError ''HTTP 500'') (\<lambda>r. 1700000000500)
       (store (snd (drain_pass (\<lambda>r. NetError ''HTTP 500'') (\<lambda>r. 1700000000500)
          \<lparr>requests = [sample_op ''1700000000000-k3x9q0c1z'' 1700000000000 2 0], failed = []\<rparr>))))))))
     = \<lparr>requests = [],
        failed = [failed_record (sample_op ''1700000000000-k3x9q0c1z'' 1700000000000 2 3)
                    ''HTTP 500'' 1700000000500]\<rparr> \<and>
   retries (failed_record (sample_op ''1700000000000-k3x9q0c1z'' 1700000000000 2 3) ''HTTP 500'' 1700000000500)
     = maxRetries (failed_record (sample_op ''1700000000000-k3x9q0c1z'' 1700000000000 2 3) ''HTTP 500'' 1700000000500)"
proof -
  let ?d0 = "\<lparr>requests = [sample_op ''1700000000000-k3x9q0c1z'' 1700000000000 2 0], failed = []\<rparr>"
  let ?net = "\<lambda>r::request. NetError ''HTTP 500''"
  let ?clock = "\<lambda>r::request. 1700000000500::nat"
  let ?d3 = "store (snd (drain_pass ?net ?clock (store (snd (drain_pass ?net ?clock
     (store (snd (drain_pass ?net ?clock ?d0))))))))"
  let ?f = "failed_record (sample_op ''1700000000000-k3x9q0c1z'' 1700000000000 2 3) ''HTTP 500'' 1700000000500"
  have "queueRequest \<lparr>date_now = 1700000000000, random_suffix = ''k3x9q0c1z'', new_date = 1700000000000\<rparr>
       ''POST'' ''/api/sales/'' None ''normal'' empty_db = Inr (''1700000000000-k3x9q0c1z'', ?d0)"
    by (simp add: queueRequest_def new_request_def addToQueue_def ids_def getPriorityValue_def
      priorities_def js_or_default_def decimal.simps digit_char_def empty_db_def sample_op_def)
  with reachable.initial have r0: "reachable ?d0" by (rule reachable.enqueued)
  then have r3: "reachable ?d3" by (intro reachable_drain)
  have d3: "?d3 = \<lparr>requests = [], failed = [?f]\<rparr>"
    by (simp add: drain_eval)
  from retries_never_decrease [OF r3] have "\<forall>f\<in>set (failed ?d3). retries f = maxRetries f"
    by (rule conjunct1)
  with d3 have "retries ?f = maxRetries ?f" by simp
  with r0 d3 show ?thesis by simp
qed

subsection \<open>The active queue and the failed store\<close>

lemma sync_loop_step_ok:
  assumes "net r = NetOk"
  obtains p1 where "store p1 = removeFromQueue (req_id r) (store p)"
    "sync_loop net clock (r # rs) p = sync_loop net clock rs p1"
proof
  let ?p1 = "p\<lparr>sent := sent p @ [r], store := removeFromQueue (req_id r) (store p),
    successCount := successCount p + 1, events := events p @ [RequestSynced r]\<rparr>"
  show "store ?p1 = removeFromQueue (req_id r) (store p)" by simp
  show "sync_loop net clock (r # rs) p = sync_loop net clock rs ?p1"
    using assms by (simp add: Let_def)
qed

lemma sync_loop_step_fail:
  assumes "net r = NetError msg" "on_failure r msg (clock r) (store p) = Inr d"
  obtains p1 where "store p1 = d" "sync_loop net clock (r # rs) p = sync_loop net clock rs p1"
proof
  let ?p1 = "p\<lparr>sent := sent p @ [r], store := d, failCount := failCount p + 1,
    events := events p @ [RequestFailed (r\<lparr>retries := retries r + 1\<rparr>) msg]\<rparr>"
  show "store ?p1 = d" by simp
  show "sync_loop net clock (r # rs) p = sync_loop net clock rs ?p1"
    using assms by (simp add: Let_def)
qed

lemma on_failure_exhausted:
  assumes "maxRetries r \<le> retries r + 1" "req_id r \<notin> set (ids (failed d))"
  obtains d' where "on_failure r msg t d = Inr d'"
    "ids (requests d') = filter (\<lambda>j. j \<noteq> req_id r) (ids (requests d))"
    "ids (failed d') = ids (failed d) @ [req_id r]"
  using assms
  by (simp add: on_failure_def Let_def moveToFailed_def removeFromQueue_def ids_def filter_map comp_def)

lemma on_failure_retry:
  assumes "retries r + 1 < maxRetries r" "req_id r \<in> set (ids (requests d))"
  obtains d' where "on_failure r msg t d = Inr d'"
    "ids (requests d') = ids (requests d)" "failed d' = failed d"
  using assms ids_updateRequest_present [of "r\<lparr>retries := retries r + 1\<rparr>" d]
  by (simp add: on_failure_def Let_def)

text \<open>
  The ids in the two stores after a loop over entries that are in the queue, under
  distinct ids, and not in the failed store: no store operation is rejected.
\<close>

lemma sync_loop_ids:
  assumes "distinct (ids rs)" "set (ids rs) \<subseteq> set (ids (requests (store p)))"
    "set (ids rs) \<inter> set (ids (failed (store p))) = {}"
  shows "\<exists>p'. sync_loop net clock rs p = (None, p') \<and>
     set (ids (requests (store p'))) =
       set (ids (requests (store p))) - req_id ` {r \<in> set rs. net r = NetOk \<or> maxRetries r \<le> retries r + 1} \<and>
     set (ids (failed (store p'))) =
       set (ids (failed (store p))) \<union> req_id ` {r \<in> set rs. net r \<noteq> NetOk \<and> maxRetries r \<le> retries r + 1}"
  using assms
proof (induction rs arbitrary: p)
  case Nil
  then show ?case by simp
next
  case (Cons r rs)
  from Cons.prems have r_new: "req_id r \<notin> set (ids rs)" and dist: "distinct (ids rs)"
    and r_in: "req_id r \<in> set (ids (requests (store p)))"
    and r_nf: "req_id r \<notin> set (ids (failed (store p)))"
    and rs_in: "set (ids rs) \<subseteq> set (ids (requests (store p)))"
    and rs_nf: "set (ids rs) \<inter> set (ids (failed (store p))) = {}"
    by (auto simp: ids_def)
  show ?case
  proof (cases "net r")
    case NetOk
    obtain p1 where p1: "store p1 = removeFromQueue (req_id r) (store p)"
      "sync_loop net clock (r # rs) p = sync_loop net clock rs p1"
      using NetOk by (rule sync_loop_step_ok)
    have "set (ids rs) \<subseteq> set (ids (requests (store p1)))"
      "set (ids rs) \<inter> set (ids (failed (store p1))) = {}"
      using p1(1) r_new rs_in rs_nf by auto
    from Cons.IH [OF dist this] obtain p' where p': "sync_loop net clock rs p1 = (None, p')"
      "set (ids (requests (store p'))) =
         set (ids (requests (store p1))) - req_id ` {r \<in> set rs. net r = NetOk \<or> maxRetries r \<le> retries r + 1}"
      "set (ids (failed (store p'))) =
         set (ids (failed (store p1))) \<union> req_id ` {r \<in> set rs. net r \<noteq> NetOk \<and> maxRetries r \<le> retries r + 1}"
      by blast
    from p' p1 NetOk show ?thesis by auto
  next
    case (NetError msg)
    show ?thesis
    proof (cases "maxRetries r \<le> retries r + 1")
      case True
      obtain d' where d': "on_failure r msg (clock r) (store p) = Inr d'"
        "ids (requests d') = filter (\<lambda>j. j \<noteq> req_id r) (ids (requests (store p)))"
        "ids (failed d') = ids (failed (store p)) @ [req_id r]"
        using True r_nf by (rule on_failure_exhausted)
      obtain p1 where p1: "store p1 = d'" "sync_loop net clock (r # rs) p = sync_loop net clock rs p1"
        using NetError d'(1) by (rule sync_loop_step_fail)
      have "set (ids rs) \<subseteq> set (ids (requests (store p1)))"
        "set (ids rs) \<inter> set (ids (failed (store p1))) = {}"
        using p1(1) d'(2,3) r_new rs_in rs_nf by auto
      from Cons.IH [OF dist this] obtain p' where p': "sync_loop net clock rs p1 = (None, p')"
        "set (ids (requests (store p'))) =
           set (ids (requests (store p1))) - req_id ` {r \<in> set rs. net r = NetOk \<or> maxRetries r \<le> retries r + 1}"
        "set (ids (failed (store p'))) =
           set (ids (failed (store p1))) \<union> req_id ` {r \<in> set rs. net r \<noteq> NetOk \<and> maxRetries r \<le> retries r + 1}"
        by blast
      from p' p1 d'(2,3) NetError True show ?thesis by auto
    next
      case False
      then have less: "retries r + 1 < maxRetries r" by simp
      obtain d' where d': "on_failure r msg (clock r) (store p) = Inr d'"
        "ids (requests d') = ids (requests (store p))" "failed d' = failed (store p)"
        using less r_in by (rule on_failure_retry)
      obtain p1 where p1: "store p1 = d'" "sync_loop net clock (r # rs) p = sync_loop net clock rs p1"
        using NetError d'(1) by (rule sync_loop_step_fail)
      have "set (ids rs) \<subseteq> set (ids (requests (store p1)))"
        "set (ids rs) \<inter> set (ids (failed (store p1))) = {}"
        using p1(1) d'(2,3) rs_in rs_nf by auto
      from Cons.IH [OF dist this] obtain p' where p': "sync_loop net clock rs p1 = (None, p')"
        "set (ids (requests (store p'))) =
           set (ids (requests (store p1))) - req_id ` {r \<in> set rs. net r = NetOk \<or> maxRetries r \<le> retries r + 1}"
        "set (ids (failed (store p'))) =
           set (ids (failed (store p1))) \<union> req_id ` {r \<in> set rs. net r \<noteq> NetOk \<and> maxRetries r \<le> retries r + 1}"
        by blast
      from p' p1 d'(2,3) NetError False show ?thesis by auto
    qed
  qed
qed

lemma distinct_ids_getQueuedRequests:
  "distinct (ids (requests d)) \<Longrightarrow> distinct (ids (getQueuedRequests limit d))"
proof -
  assume "distinct (ids (requests d))"
  then have "distinct (take limit (ids (priority_cursor d)))"
    by (intro distinct_take distinct_ids_priority_cursor)
  then show ?thesis by (simp add: getQueuedRequests_take ids_def take_map)
qed

text \<open>
  C4, as the code has it, for the IndexedDB manager. When the keys of the queue are
  distinct and no id is in both stores before a drain pass, no store operation of the pass
  is rejected, no id is in both stores after it, and for every operation of the snapshot:
  if its call succeeded its id is in neither store; if its call failed its id is in exactly
  one of them, in the failed store when the incremented \<^verbatim>\<open>retries\<close> reached \<^verbatim>\<open>maxRetries\<close>
  and in the queue otherwise.
\<close>

theorem one_store_after_pass:
  assumes "distinct (ids (requests d))"
    and "set (ids (requests d)) \<inter> set (ids (failed d)) = {}"
  shows "\<exists>p. drain_pass net clock d = (None, p) \<and>
     set (ids (requests (store p))) \<inter> set (ids (failed (store p))) = {} \<and>
     (\<forall>r\<in>set (getQueuedRequests default_limit d).
        (net r = NetOk \<longrightarrow>
           req_id r \<notin> set (ids (requests (store p))) \<and> req_id r \<notin> set (ids (failed (store p)))) \<and>
        (net r \<noteq> NetOk \<longrightarrow>
           (req_id r \<in> set (ids (requests (store p)))) \<noteq> (req_id r \<in> set (ids (failed (store p)))) \<and>
           (req_id r \<in> set (ids (failed (store p))) \<longleftrightarrow> maxRetries r \<le> retries r + 1)))"
proof -
  let ?rs = "getQueuedRequests default_limit d"
  let ?gone = "req_id ` {r \<in> set ?rs. net r = NetOk \<or> maxRetries r \<le> retries r + 1}"
  let ?moved = "req_id ` {r \<in> set ?rs. net r \<noteq> NetOk \<and> maxRetries r \<le> retries r + 1}"
  have dist: "distinct (ids ?rs)"
    using assms(1) by (rule distinct_ids_getQueuedRequests)
  have sub: "set (ids ?rs) \<subseteq> set (ids (requests d))"
    using set_getQueuedRequests_subset [of default_limit d] by (auto simp: ids_def)
  with assms(2) have nf: "set (ids ?rs) \<inter> set (ids (failed d)) = {}" by auto
  from sync_loop_ids [of ?rs "init_pass d" net clock] dist sub nf
  obtain p where p: "sync_loop net clock ?rs (init_pass d) = (None, p)"
    "set (ids (requests (store p))) = set (ids (requests d)) - ?gone"
    "set (ids (failed (store p))) = set (ids (failed d)) \<union> ?moved"
    by (auto simp: init_pass_def)
  have same: "x = y" if "x \<in> set ?rs" "y \<in> set ?rs" "req_id x = req_id y" for x y
    using dist that by (rule same_id_same_record)
  have in_q: "req_id r \<in> set (ids (requests d))" if "r \<in> set ?rs" for r
    using sub that by (auto simp: ids_def)
  have not_f: "req_id r \<notin> set (ids (failed d))" if "r \<in> set ?rs" for r
    using nf that by (auto simp: ids_def)
  have gone: "req_id r \<in> ?gone \<longleftrightarrow> net r = NetOk \<or> maxRetries r \<le> retries r + 1"
    if "r \<in> set ?rs" for r
    using that same by blast
  have moved: "req_id r \<in> ?moved \<longleftrightarrow> net r \<noteq> NetOk \<and> maxRetries r \<le> retries r + 1"
    if "r \<in> set ?rs" for r
    using that same by blast
  have disj: "set (ids (requests (store p))) \<inter> set (ids (failed (store p))) = {}"
    using p(2,3) assms(2) by auto
  have each: "(net r = NetOk \<longrightarrow>
           req_id r \<notin> set (ids (requests (store p))) \<and> req_id r \<notin> set (ids (failed (store p)))) \<and>
        (net r \<noteq> NetOk \<longrightarrow>
           (req_id r \<in> set (ids (requests (store p)))) \<noteq> (req_id r \<in> set (ids (failed (store p)))) \<and>
           (req_id r \<in> set (ids (failed (store p))) \<longleftrightarrow> maxRetries r \<le> retries r + 1))"
    if "r \<in> set ?rs" for r
    using p(2,3) gone [OF that] moved [OF that] in_q [OF that] not_f [OF that]
    by simp
  from p(1) disj each show ?thesis
    by (auto simp: drain_pass_def)
qed

theorem one_store_after_pass_witness:
  "distinct (ids [sample_op ''1700000000000-aaa'' 1700000000000 2 2,
                  sample_op ''1700000000001-bbb'' 1700000000001 2 0,
                  sample_op ''1700000000002-ccc'' 1700000000002 2 0]) \<and>
   fst (drain_pass (\<lambda>r. if req_id r = ''1700000000002-ccc'' then NetOk else NetError ''HTTP 500'')
          (\<lambda>r. 1700000000500)
          \<lparr>requests = [sample_op ''1700000000000-aaa'' 1700000000000 2 2,
                       sample_op ''1700000000001-bbb'' 1700000000001 2 0,
                       sample_op ''1700000000002-ccc'' 1700000000002 2 0],
           failed = []\<rparr>) = None \<and>
   store (snd (drain_pass (\<lambda>r. if req_id r = ''1700000000002-ccc'' then NetOk else NetError ''HTTP 500'')
          (\<lambda>r. 1700000000500)
          \<lparr>requests = [sample_op ''1700000000000-aaa'' 1700000000000 2 2,
                       sample_op ''1700000000001-bbb'' 1700000000001 2 0,
                       sample_op ''1700000000002-ccc'' 1700000000002 2 0],
           failed = []\<rparr>))
     = \<lparr>requests = [sample_op ''1700000000001-bbb'' 1700000000001 2 1],
        failed = [failed_record (sample_op ''1700000000000-aaa'' 1700000000000 2 3) ''HTTP 500'' 1700000000500]\<rparr>"
proof -
  let ?d = "\<lparr>requests = [sample_op ''1700000000000-aaa'' 1700000000000 2 2,
                       sample_op ''1700000000001-bbb'' 1700000000001 2 0,
                       sample_op ''1700000000002-ccc'' 1700000000002 2 0],
           failed = []\<rparr>"
  let ?net = "\<lambda>r. if req_id r = ''1700000000002-ccc'' then NetOk else NetError ''HTTP 500''"
  have d: "distinct (ids (requests ?d))" "set (ids (requests ?d)) \<inter> set (ids (failed ?d)) = {}"
    by (simp_all add: ids_def sample_op_def)
  from one_store_after_pass [OF d, of ?net "\<lambda>r. 1700000000500"]
  have "fst (drain_pass ?net (\<lambda>r. 1700000000500) ?d) = None" by auto
  moreover have "store (snd (drain_pass ?net (\<lambda>r. 1700000000500) ?d))
     = \<lparr>requests = [sample_op ''1700000000001-bbb'' 1700000000001 2 1],
        failed = [failed_record (sample_op ''1700000000000-aaa'' 1700000000000 2 3) ''HTTP 500'' 1700000000500]\<rparr>"
    by (simp add: drain_eval)
  ultimately show ?thesis using d(1) by simp
qed

text \<open>
  C4 as stated fails twice. The localStorage manager has no failed store: it empties its
  queue at the start of a pass and puts back only operations with fewer than three failed
  attempts, so an operation whose third attempt fails is in no store. In the IndexedDB
  manager \<^verbatim>\<open>moveToFailed\<close> and \<^verbatim>\<open>removeFromQueue\<close> are two transactions: after the first
  and before the second the operation is in both stores.
\<close>

theorem one_store_counterexample:
  "ls_offlineQueue (fst (ls_syncOfflineData ls_always_fails
      (sample_ls_manager [sample_ls_request 0]))) = [sample_ls_request 1] \<and>
   ls_offlineQueue (fst (ls_syncOfflineData ls_always_fails
      (sample_ls_manager [sample_ls_request 1]))) = [sample_ls_request 2] \<and>
   snd (ls_syncOfflineData ls_always_fails
      (sample_ls_manager [sample_ls_request 2])) = [sample_ls_request 2] \<and>
   ls_offlineQueue (fst (ls_syncOfflineData ls_always_fails
      (sample_ls_manager [sample_ls_request 2]))) = [] \<and>
   ls_saved (fst (ls_syncOfflineData ls_always_fails
      (sample_ls_manager [sample_ls_request 2]))) = [] \<and>
   moveToFailed (sample_op ''1700000000000-aaa'' 1700000000000 2 3) ''HTTP 500'' 1700000000500
      \<lparr>requests = [sample_op ''1700000000000-aaa'' 1700000000000 2 2], failed = []\<rparr>
     = Inr \<lparr>requests = [sample_op ''1700000000000-aaa'' 1700000000000 2 2],
            failed = [failed_record (sample_op ''1700000000000-aaa'' 1700000000000 2 3) ''HTTP 500'' 1700000000500]\<rparr> \<and>
   ''1700000000000-aaa'' \<in> set (ids [sample_op ''1700000000000-aaa'' 1700000000000 2 2]) \<and>
   ''1700000000000-aaa'' \<in> set (ids
      [failed_record (sample_op ''1700000000000-aaa'' 1700000000000 2 3) ''HTTP 500'' 1700000000500])"
  by (simp add: ls_always_fails_def ls_syncOfflineData_def sample_ls_manager_def sample_ls_request_def
      ls_showNotification_def ls_saveQueue_def ls_show_results_def Let_def
      moveToFailed_def ids_def failed_record_def sample_op_def)

subsection \<open>Messages from the service worker\<close>

text \<open>
  C9. On a \<^verbatim>\<open>SYNC_COMPLETED\<close> message the localStorage manager sets its queue to the empty
  array and saves it, whatever the queue held; the connectivity and sync flags stay.
\<close>

theorem sync_completed_clears_queue:
  "ls_offlineQueue (ls_handleServiceWorkerMessage ''SYNC_COMPLETED'' m) = [] \<and>
   ls_saved (ls_handleServiceWorkerMessage ''SYNC_COMPLETED'' m) = [] \<and>
   ls_isOnline (ls_handleServiceWorkerMessage ''SYNC_COMPLETED'' m) = ls_isOnline m \<and>
   ls_syncInProgress (ls_handleServiceWorkerMessage ''SYNC_COMPLETED'' m) = ls_syncInProgress m"
  by (simp add: ls_handleServiceWorkerMessage_def ls_saveQueue_def ls_showNotification_def)

theorem sync_completed_clears_queue_witness:
  "ls_handleServiceWorkerMessage ''SYNC_COMPLETED''
      (sample_ls_manager [sample_ls_request 0, sample_ls_request 1])
     = \<lparr> ls_isOnline = True, ls_offlineQueue = [], ls_syncInProgress = False, ls_saved = [],
         ls_notifications = [(''Offline data synced successfully'', ''success'')] \<rparr>"
  using sync_completed_clears_queue [of "sample_ls_manager [sample_ls_request 0, sample_ls_request 1]"]
  by (simp add: ls_handleServiceWorkerMessage_def ls_saveQueue_def ls_showNotification_def
      sample_ls_manager_def)

subsection \<open>A trigger on an empty queue\<close>

lemma getQueuedRequests_empty [simp]: "getQueuedRequests limit (d\<lparr>requests := []\<rparr>) = []"
  by (simp add: getQueuedRequests_def priority_cursor_def)

text \<open>
  C7. A sync trigger on an empty queue: the service worker posts \<^verbatim>\<open>SYNC_STARTED\<close> and
  \<^verbatim>\<open>SYNC_COMPLETED\<close>, leaves its store empty and makes no call; the localStorage manager
  returns at once with its state unchanged and no call; the drain pass of the IndexedDB
  manager ends without error, with the stores unchanged and no call.
\<close>

theorem sync_on_empty_queue:
  "sw_syncOfflineData swnet (Db []) = (Db [], [''SYNC_STARTED'', ''SYNC_COMPLETED''], []) \<and>
   ls_syncOfflineData lsnet (m\<lparr>ls_offlineQueue := []\<rparr>) = (m\<lparr>ls_offlineQueue := []\<rparr>, []) \<and>
   drain_pass net clock (d\<lparr>requests := []\<rparr>) = (None, init_pass (d\<lparr>requests := []\<rparr>)) \<and>
   sent (init_pass (d\<lparr>requests := []\<rparr>)) = [] \<and>
   store (init_pass (d\<lparr>requests := []\<rparr>)) = d\<lparr>requests := []\<rparr>"
  by (simp add: sw_syncOfflineData_def sw_getQueuedRequests_def ls_syncOfflineData_def
      drain_pass_def init_pass_def)

theorem sync_on_empty_queue_witness:
  "sw_syncOfflineData (\<lambda>r. NetError ''HTTP 500'') (Db []) = (Db [], [''SYNC_STARTED'', ''SYNC_COMPLETED''], []) \<and>
   ls_syncOfflineData (\<lambda>r. NetError ''HTTP 500'') (sample_ls_manager []) = (sample_ls_manager [], []) \<and>
   drain_pass (\<lambda>r. NetError ''HTTP 500'') (\<lambda>r. 0) empty_db = (None, init_pass empty_db)"
  using sync_on_empty_queue [of "\<lambda>r. NetError ''HTTP 500''" "\<lambda>r. NetError ''HTTP 500''"
      "sample_ls_manager []" "\<lambda>r. NetError ''HTTP 500''" "\<lambda>r. 0" empty_db]
  by (simp add: sample_ls_manager_def empty_db_def)

subsection \<open>Network-first API requests\<close>

lemma sw_fetch_api_fallback:
  "is_api r \<Longrightarrow> fetch r = None \<Longrightarrow> sw_fetch fetch r cs = (caches_match r cs, cs)"
  by (simp add: sw_fetch_def)

lemma sw1_handleAPIRequest_fallback:
  "fetch r = None \<Longrightarrow>
     sw1_handleAPIRequest fetch now r cs =
       ((case caches_match r cs of Some cachedResponse \<Rightarrow> cachedResponse | None \<Rightarrow> offline_response now), cs)"
  by (simp add: sw1_handleAPIRequest_def split: option.splits)

lemma offline_response_fields:
  "status (offline_response now) = 503 \<and>
   map_of (case body (offline_response now) of JsonObject kvs \<Rightarrow> kvs | Raw s \<Rightarrow> []) ''error'' = Some (JString ''offline'') \<and>
   map_of (case body (offline_response now) of JsonObject kvs \<Rightarrow> kvs | Raw s \<Rightarrow> []) ''timestamp'' = Some (JTime now)"
  by (simp add: offline_response_def)

text \<open>
  C5. The claim: when the network call of an API request fails, the handler answers with
  the cached response, or with a synthesized response carrying a reason code and a
  timestamp. The earlier worker's \<^verbatim>\<open>handleAPIRequest\<close> does so
  (\<open>sw1_handleAPIRequest_fallback\<close>, \<open>offline_response_fields\<close>). The handler of
  generation v4 answers with the result of \<^verbatim>\<open>caches.match\<close>, which is no response at all
  when nothing is cached: for a GET of \<^verbatim>\<open>/api/products/\<close> with the network down and only
  the page \<^verbatim>\<open>/\<close> in the cache, it yields no response where the earlier worker yields the
  503 response.
\<close>

theorem api_fallback_without_cache_entry:
  "is_api (get_request ''/api/products/'') \<and>
   sw_fetch network_down (get_request ''/api/products/'')
      [(CACHE_NAME, [(''/'', \<lparr>status = 200, headers = [], body = Raw ''<html></html>''\<rparr>)])]
     = (None, [(CACHE_NAME, [(''/'', \<lparr>status = 200, headers = [], body = Raw ''<html></html>''\<rparr>)])]) \<and>
   sw1_handleAPIRequest network_down 1700000000000 (get_request ''/api/products/'')
      [(CACHE_NAME, [(''/'', \<lparr>status = 200, headers = [], body = Raw ''<html></html>''\<rparr>)])]
     = (offline_response 1700000000000,
        [(CACHE_NAME, [(''/'', \<lparr>status = 200, headers = [], body = Raw ''<html></html>''\<rparr>)])])"
  by (simp add: network_down_def sw_fetch_def sw1_handleAPIRequest_def is_api_def get_request_def cache_match_def)

subsection \<open>Installation and activation of a cache generation\<close>

lemma foldl_delete_others:
  "foldl (\<lambda>s n. if n \<noteq> c then caches_delete n s else s) cs ns
     = filter (\<lambda>e. fst e = c \<or> fst e \<notin> set ns) cs"
proof (induction ns arbitrary: cs)
  case Nil
  show ?case by simp
next
  case (Cons n ns)
  show ?case
  proof (cases "n = c")
    case True
    with Cons.IH [of cs] show ?thesis by (auto intro: filter_cong)
  next
    case False
    with Cons.IH [of "caches_delete n cs"] show ?thesis
      by (auto simp: caches_delete_def intro: filter_cong)
  qed
qed

lemma sw_activate_filter: "sw_activate cs = filter (\<lambda>e. fst e = CACHE_NAME) cs"
  by (auto simp: sw_activate_def foldl_delete_others caches_keys_def intro: filter_cong)

lemma map_of_filter_name: "map_of (filter (\<lambda>e. fst e = k) cs) k' = (if k' = k then map_of cs k else None)"
  by (induction cs) auto

lemma map_of_cache_put: "map_of (cache_put u v c) u' = (if u' = u then Some v else map_of c u')"
proof -
  have "map_of (filter (\<lambda>e. fst e \<noteq> u) c) u' = (if u' = u then None else map_of c u')"
    by (induction c) auto
  then show ?thesis
    by (auto simp: cache_put_def map_of_append map_add_def split: option.splits)
qed

lemma map_of_caches_open:
  "map_of (caches_open name cs) k =
     (if k = name then (case map_of cs name of None \<Rightarrow> Some [] | Some c \<Rightarrow> Some c) else map_of cs k)"
proof (cases "map_of cs name")
  case None
  then have "name \<notin> set (caches_keys cs)" by (simp add: caches_keys_def map_of_eq_None_iff)
  with None show ?thesis
    by (auto simp: caches_open_def map_of_append map_add_def split: option.splits)
next
  case (Some c)
  then have "name \<in> set (caches_keys cs)"
    by (metis caches_keys_def map_of_eq_None_iff option.distinct(1) set_map)
  with Some show ?thesis by (simp add: caches_open_def)
qed

lemma map_of_map_named:
  "map_of (map (\<lambda>e. if fst e = name then (fst e, h (snd e)) else e) cs) k
     = (if k = name then map_option h (map_of cs name) else map_of cs k)"
  by (induction cs) auto

lemma stored_put_in:
  "stored name u' (put_in name (get_request u) v cs) = (if u' = u then Some v else stored name u' cs)"
  by (simp add: stored_def put_in_def get_request_def map_of_map_named map_of_caches_open
      map_of_cache_put split: option.splits)

lemma stored_put_in_other:
  "name' \<noteq> name \<Longrightarrow> stored name' u' (put_in name r v cs) = stored name' u' cs"
  by (simp add: stored_def put_in_def map_of_map_named map_of_caches_open)

lemma stored_foldl_put:
  "(u \<in> fst ` set entries \<or> stored name u cs \<noteq> None) \<Longrightarrow>
     stored name u (foldl (\<lambda>s e. put_in name (get_request (fst e)) (snd e) s) cs entries) \<noteq> None"
proof (induction entries arbitrary: cs)
  case Nil
  then show ?case by simp
next
  case (Cons e entries)
  have "u \<in> fst ` set entries \<or> stored name u (put_in name (get_request (fst e)) (snd e) cs) \<noteq> None"
    using Cons.prems by (auto simp: stored_put_in)
  from Cons.IH [OF this] show ?case by simp
qed

lemma fetch_all_urls: "fetch_all fetch urls = Some entries \<Longrightarrow> map fst entries = urls"
  by (induction urls arbitrary: entries) (auto split: option.splits if_splits)

lemma stored_caches_match:
  "stored name u cs \<noteq> None \<Longrightarrow> caches_match (get_request u) cs \<noteq> None"
proof (induction cs)
  case Nil
  then show ?case by (simp add: stored_def)
next
  case (Cons e cs)
  show ?case
  proof (cases "cache_match (get_request u) (snd e)")
    case (Some x)
    then show ?thesis by simp
  next
    case None
    then have "map_of (snd e) u = None" by (simp add: cache_match_def get_request_def)
    with Cons.prems have "stored name u cs \<noteq> None"
      by (cases e) (auto simp: stored_def split: if_splits option.splits)
    with Cons.IH None show ?thesis by simp
  qed
qed

lemma sw_install_manifest:
  assumes "sw_install fetch cs = (True, cs1)" "u \<in> set STATIC_ASSETS"
  shows "stored CACHE_NAME u cs1 \<noteq> None"
proof -
  from assms(1) obtain entries where e: "fetch_all fetch STATIC_ASSETS = Some entries"
    and cs1: "cs1 = foldl (\<lambda>s e. put_in CACHE_NAME (get_request (fst e)) (snd e) s)
        (caches_open CACHE_NAME cs) entries"
    by (auto simp: sw_install_def cache_addAll_def Let_def split: option.splits)
  from fetch_all_urls [OF e] assms(2) have "u \<in> fst ` set entries"
    by (metis set_map)
  then show ?thesis unfolding cs1 by (intro stored_foldl_put) simp
qed

lemma stored_sw_activate: "stored CACHE_NAME u (sw_activate cs) = stored CACHE_NAME u cs"
  by (simp add: stored_def sw_activate_filter map_of_filter_name)

lemma stored_cache_pages:
  "stored CACHE_NAME u (cache_pages pf pages cs) = stored CACHE_NAME u cs"
proof (induction pages arbitrary: cs)
  case Nil
  show ?case by simp
next
  case (Cons page pages)
  have "stored CACHE_NAME u (put_in ''fieldmax-pages'' r v cs) = stored CACHE_NAME u cs" for r v
    by (rule stored_put_in_other) (simp add: CACHE_NAME_def)
  then show ?case by (simp add: Cons.IH split: option.splits)
qed

text \<open>
  C6. A worker of generation \<^verbatim>\<open>CACHE_NAME\<close> is activated only after its installation
  succeeded. After the activation that follows a successful installation, the only cache
  left is the one named \<^verbatim>\<open>CACHE_NAME\<close> (activation deletes every other name, in any cache
  storage, among them the manager's \<^verbatim>\<open>fieldmax-pages\<close>), and every URL of \<^verbatim>\<open>STATIC_ASSETS\<close>
  is stored in it and is found by \<^verbatim>\<open>caches.match\<close>; this also holds when the manager has
  cached its critical pages in between.
\<close>

theorem activation_swaps_generation:
  assumes "sw_install fetch cs = (True, cs1)"
  shows "set (caches_keys (sw_activate cs1)) = {CACHE_NAME} \<and>
     (\<forall>cs' name. name \<noteq> CACHE_NAME \<longrightarrow> map_of (sw_activate cs') name = None) \<and>
     (\<forall>u\<in>set STATIC_ASSETS.
        stored CACHE_NAME u (sw_activate cs1) \<noteq> None \<and>
        caches_match (get_request u) (sw_activate cs1) \<noteq> None) \<and>
     (\<forall>pf. \<forall>u\<in>set STATIC_ASSETS.
        stored CACHE_NAME u (sw_activate (cacheCriticalPages pf cs1)) \<noteq> None)"
proof (intro conjI allI impI ballI)
  have m: "stored CACHE_NAME u (sw_activate cs1) \<noteq> None" if "u \<in> set STATIC_ASSETS" for u
    using sw_install_manifest [OF assms that]
    by (simp add: stored_def sw_activate_filter map_of_filter_name)
  show "stored CACHE_NAME u (sw_activate cs1) \<noteq> None" if "u \<in> set STATIC_ASSETS" for u
    using that by (rule m)
  show "caches_match (get_request u) (sw_activate cs1) \<noteq> None" if "u \<in> set STATIC_ASSETS" for u
    using m [OF that] by (rule stored_caches_match)
  show "map_of (sw_activate cs') name = None" if "name \<noteq> CACHE_NAME" for cs' name
    using that by (simp add: sw_activate_filter map_of_filter_name)
  show "stored CACHE_NAME u (sw_activate (cacheCriticalPages pf cs1)) \<noteq> None"
    if "u \<in> set STATIC_ASSETS" for pf u
    using sw_install_manifest [OF assms that]
    by (simp add: stored_sw_activate cacheCriticalPages_def stored_cache_pages)
  have "''/'' \<in> set STATIC_ASSETS" by (simp add: STATIC_ASSETS_def)
  from m [OF this] have "map_of (sw_activate cs1) CACHE_NAME \<noteq> None"
    by (auto simp: stored_def split: option.splits)
  then have "CACHE_NAME \<in> set (caches_keys (sw_activate cs1))"
    by (metis caches_keys_def map_of_eq_None_iff set_map)
  moreover have "set (caches_keys (sw_activate cs1)) \<subseteq> {CACHE_NAME}"
    by (auto simp: sw_activate_filter caches_keys_def)
  ultimately show "set (caches_keys (sw_activate cs1)) = {CACHE_NAME}" by auto
qed

lemma sw_install_ok: "fst (sw_install fetch cs) = (fetch_all fetch STATIC_ASSETS \<noteq> None)"
  by (simp add: sw_install_def cache_addAll_def Let_def split: option.splits)

lemma fetch_all_const:
  "ok v \<Longrightarrow> fetch_all (\<lambda>r. Some v) urls = Some (map (\<lambda>u. (u, v)) urls)"
  by (induction urls) simp_all

theorem activation_swaps_generation_witness:
  "fst (sw_install (\<lambda>r. Some sample_response)
      [(''fieldmax-shop-v3'', [(''/old.css'', sample_response)]),
       (''fieldmax-pages'', [(''/shop/'', sample_response)])]) = True \<and>
   set (caches_keys (sw_activate (snd (sw_install (\<lambda>r. Some sample_response)
      [(''fieldmax-shop-v3'', [(''/old.css'', sample_response)]),
       (''fieldmax-pages'', [(''/shop/'', sample_response)])])))) = {CACHE_NAME} \<and>
   map_of (sw_activate (snd (sw_install (\<lambda>r. Some sample_response)
      [(''fieldmax-shop-v3'', [(''/old.css'', sample_response)]),
       (''fieldmax-pages'', [(''/shop/'', sample_response)])]))) ''fieldmax-shop-v3'' = None \<and>
   map_of (sw_activate (snd (sw_install (\<lambda>r. Some sample_response)
      [(''fieldmax-shop-v3'', [(''/old.css'', sample_response)]),
       (''fieldmax-pages'', [(''/shop/'', sample_response)])]))) ''fieldmax-pages'' = None \<and>
   caches_match (get_request ''/manifest.json'') (sw_activate (snd (sw_install (\<lambda>r. Some sample_response)
      [(''fieldmax-shop-v3'', [(''/old.css'', sample_response)]),
       (''fieldmax-pages'', [(''/shop/'', sample_response)])]))) \<noteq> None"
proof -
  let ?cs = "[(''fieldmax-shop-v3'', [(''/old.css'', sample_response)]),
       (''fieldmax-pages'', [(''/shop/'', sample_response)])]"
  let ?f = "\<lambda>r::fetch_request. Some sample_response"
  have "ok sample_response" by (simp add: ok_def sample_response_def)
  then have ok: "fst (sw_install ?f ?cs) = True"
    by (simp add: sw_install_ok fetch_all_const)
  have inst: "sw_install ?f ?cs = (True, snd (sw_install ?f ?cs))"
    using ok prod.collapse [of "sw_install ?f ?cs"] by simp
  have m: "''/manifest.json'' \<in> set STATIC_ASSETS" by (simp add: STATIC_ASSETS_def)
  have n: "''fieldmax-shop-v3'' \<noteq> CACHE_NAME" "''fieldmax-pages'' \<noteq> CACHE_NAME"
    by (simp_all add: CACHE_NAME_def)
  from activation_swaps_generation [OF inst] m n ok show ?thesis
    by blast
qed

subsection \<open>Single flight\<close>

lemma sync_enter_Some:
  "sync_enter m = Some m1 \<Longrightarrow> \<not> syncInProgress m \<and> isOnline m \<and> syncInProgress m1"
  by (auto simp: sync_enter_def showNotification_def split: if_splits)

lemma sync_enter_busy: "syncInProgress m \<Longrightarrow> sync_enter m = None"
  by (simp add: sync_enter_def)

lemma sync_finally_idle [simp]: "\<not> syncInProgress (sync_finally m)"
  by (simp add: sync_finally_def)

lemma step_flight_inv: "flight_inv c \<Longrightarrow> flight_inv (step e c)"
proof (cases e)
  case Trigger
  assume "flight_inv c"
  then show ?thesis using Trigger
    by (cases "sync_enter (mgr c)") (auto simp: flight_inv_def dest: sync_enter_Some)
next
  case (Finish net clock)
  assume "flight_inv c"
  then show ?thesis using Finish by (auto simp: flight_inv_def)
next
  case GoOnline
  assume "flight_inv c"
  then show ?thesis using GoOnline by (simp add: flight_inv_def)
next
  case GoOffline
  assume "flight_inv c"
  then show ?thesis using GoOffline by (simp add: flight_inv_def)
qed

lemma run_flight_inv: "flight_inv c \<Longrightarrow> flight_inv (run es c)"
  by (induction es arbitrary: c) (auto intro: step_flight_inv)

lemma step_started:
  "flight_inv c \<Longrightarrow>
     (if running c < running (step e c) then 1 else 0) + (completed c + running c)
       = completed (step e c) + running (step e c)"
proof (cases e)
  case Trigger
  assume "flight_inv c"
  then show ?thesis using Trigger
    by (cases "sync_enter (mgr c)") (auto simp: flight_inv_def)
next
  case (Finish net clock)
  assume "flight_inv c"
  then show ?thesis using Finish by (auto simp: flight_inv_def)
next
  case GoOnline
  then show ?thesis by simp
next
  case GoOffline
  then show ?thesis by simp
qed

lemma step_idle:
  "flight_inv c \<Longrightarrow>
     (if syncInProgress (mgr c) \<and> \<not> syncInProgress (mgr (step e c)) then 1 else 0) + completed c
       = completed (step e c)"
proof (cases e)
  case Trigger
  assume "flight_inv c"
  then show ?thesis using Trigger
    by (cases "sync_enter (mgr c)") (auto simp: flight_inv_def dest: sync_enter_Some)
next
  case (Finish net clock)
  assume "flight_inv c"
  then show ?thesis using Finish by (auto simp: flight_inv_def)
next
  case GoOnline
  then show ?thesis by simp
next
  case GoOffline
  then show ?thesis by simp
qed

lemma run_started:
  "flight_inv c \<Longrightarrow>
     passes_started es c + (completed c + running c) = completed (run es c) + running (run es c)"
proof (induction es arbitrary: c)
  case Nil
  show ?case by simp
next
  case (Cons e es)
  from Cons.IH [OF step_flight_inv [OF Cons.prems], of e] step_started [OF Cons.prems, of e]
  show ?case by simp
qed

lemma run_idle:
  "flight_inv c \<Longrightarrow> idle_returns es c + completed c = completed (run es c)"
proof (induction es arbitrary: c)
  case Nil
  show ?case by simp
next
  case (Cons e es)
  from Cons.IH [OF step_flight_inv [OF Cons.prems], of e] step_idle [OF Cons.prems, of e]
  show ?case by simp
qed

lemma fresh_flight_inv: "flight_inv (fresh_context m)"
  by (simp add: flight_inv_def fresh_context_def)

text \<open>
  C2. In the context of the IndexedDB manager, along every sequence of triggers, pass
  completions and connectivity changes from a state with no pass in progress: at most one
  pass is running, and \<^verbatim>\<open>syncInProgress\<close> is set exactly while one is; the passes started
  are the passes completed plus the one running, and the flag has returned to idle once
  per completed pass. A trigger that finds the flag set changes nothing, and
  \<^verbatim>\<open>syncOfflineData\<close> called with the flag set returns the manager as it is, with no pass.
\<close>

theorem single_flight:
  "running (run es (fresh_context m)) \<le> 1 \<and>
   (syncInProgress (mgr (run es (fresh_context m))) \<longleftrightarrow> running (run es (fresh_context m)) = 1) \<and>
   passes_started es (fresh_context m)
     = completed (run es (fresh_context m)) + running (run es (fresh_context m)) \<and>
   idle_returns es (fresh_context m) = completed (run es (fresh_context m)) \<and>
   (syncInProgress (mgr c) \<longrightarrow> step Trigger c = c) \<and>
   (syncInProgress m' \<longrightarrow> syncOfflineData net clock m' = (m', None))"
proof (intro conjI impI)
  from run_flight_inv [OF fresh_flight_inv, of es m]
  show "running (run es (fresh_context m)) \<le> 1"
    and "syncInProgress (mgr (run es (fresh_context m))) \<longleftrightarrow> running (run es (fresh_context m)) = 1"
    by (simp_all add: flight_inv_def)
  from run_started [OF fresh_flight_inv, of es m]
  show "passes_started es (fresh_context m)
     = completed (run es (fresh_context m)) + running (run es (fresh_context m))"
    by (simp add: fresh_context_def)
  from run_idle [OF fresh_flight_inv, of es m]
  show "idle_returns es (fresh_context m) = completed (run es (fresh_context m))"
    by (simp add: fresh_context_def)
  show "step Trigger c = c" if "syncInProgress (mgr c)"
    using that by (simp add: sync_enter_busy)
  show "syncOfflineData net clock m' = (m', None)" if "syncInProgress m'"
    using that by (simp add: syncOfflineData_def sync_enter_busy)
qed

lemmas flight_eval =
  fresh_context_def sample_manager_def sync_enter_def showNotification_def sync_finally_def
  sync_body_def drain_pass_def getQueuedRequests_def priority_cursor_def default_limit_def
  init_pass_def show_summary_def empty_db_def

theorem single_flight_witness:
  "syncInProgress (mgr (run [Trigger] (fresh_context (sample_manager\<lparr>database := empty_db\<rparr>)))) \<and>
   run [Trigger, Trigger] (fresh_context (sample_manager\<lparr>database := empty_db\<rparr>))
     = run [Trigger] (fresh_context (sample_manager\<lparr>database := empty_db\<rparr>)) \<and>
   running (run [Trigger, Trigger] (fresh_context (sample_manager\<lparr>database := empty_db\<rparr>))) = 1 \<and>
   passes_started [Trigger, Trigger, Finish (\<lambda>r. NetOk) (\<lambda>r. 0), Trigger]
      (fresh_context (sample_manager\<lparr>database := empty_db\<rparr>)) = 2 \<and>
   idle_returns [Trigger, Trigger, Finish (\<lambda>r. NetOk) (\<lambda>r. 0), Trigger]
      (fresh_context (sample_manager\<lparr>database := empty_db\<rparr>)) = 1"
proof -
  let ?c = "fresh_context (sample_manager\<lparr>database := empty_db\<rparr>)"
  have busy: "syncInProgress (mgr (run [Trigger] ?c))"
    by (simp add: flight_eval)
  from single_flight [of "[Trigger]" "sample_manager\<lparr>database := empty_db\<rparr>" "run [Trigger] ?c"] busy
  have noop: "run [Trigger, Trigger] ?c = run [Trigger] ?c" by simp
  have one: "running (run [Trigger, Trigger] ?c) = 1"
    unfolding noop by (simp add: flight_eval)
  have counts: "passes_started [Trigger, Trigger, Finish (\<lambda>r. NetOk) (\<lambda>r. 0), Trigger] ?c = 2"
    "idle_returns [Trigger, Trigger, Finish (\<lambda>r. NetOk) (\<lambda>r. 0), Trigger] ?c = 1"
    by (simp_all add: flight_eval)
  from busy noop one counts show ?thesis by simp
qed

end
